theory Spec2Isabelle
  imports Main "HOL-Library.Word" "HOL-Library.AList"
begin

section \<open>The BLE controller of esp32\_ble\_controller.cpp\<close>

text \<open>
  A shallow embedding of \<^verbatim>\<open>components/esp32_ble_controller/esp32_ble_controller.cpp\<close>.
  Controller objects live in a store indexed by their address, because the source reaches
  the deferred-functions queue through the pointer \<^verbatim>\<open>global_ble_controller\<close> and not
  through \<^verbatim>\<open>this\<close>. Calls that leave the file (logging, the BLE stack, the scheduler,
  observer callbacks, endpoint writes) are recorded in traces of the world, in call order.
  The maintenance handler with its commands and \<^verbatim>\<open>dump_config\<close> touch none of the state
  below and are left out.
\<close>

subsection \<open>Data\<close>

type_synonym uint8_t = "8 word"
type_synonym uint32_t = "32 word"
type_synonym object_id = string
type_synonym addr = nat

text \<open>\<^verbatim>\<open>BLECharacteristicInfoForHandler\<close>, as \<^verbatim>\<open>register_component\<close> fills it.\<close>

record BLECharacteristicInfoForHandler =
  service_UUID :: string
  characteristic_UUID :: string
  use_BLE2902 :: bool

text \<open>
  The component kinds whose services are created through a handler factory function in
  \<^verbatim>\<open>setup_ble_services_for_components\<close>. A component is a \<^verbatim>\<open>Nameable\<close>; the file
  reads nothing of it but \<^verbatim>\<open>get_object_id()\<close>.
\<close>

datatype component_kind = BinarySensor | Sensor | Switch | TextSensor

text \<open>
  Modelled from the spec: \<^verbatim>\<open>BLEComponentHandlerFactory\<close> and the handler classes are
  in files that are not part of the source at hand. The spec describes an endpoint handler as
  an object bound to exactly one component and one endpoint descriptor, so a handler is
  represented by what its factory function was given.
\<close>

record handler =
  handler_kind :: component_kind
  handler_component :: object_id
  handler_info :: BLECharacteristicInfoForHandler

text \<open>The state types \<^verbatim>\<open>update_component_state\<close> is instantiated with; a float is
  kept as its bit pattern.\<close>

datatype state_value = BoolState bool | FloatState uint32_t | TextState string

datatype log_level = LOGE | LOGW | LOGI | LOGD | LOGCONFIG

type_synonym log_entry = "log_level \<times> string \<times> int list"

text \<open>
  The closures handed to \<^verbatim>\<open>execute_in_loop\<close>. The first five are the lambdas of this
  file; a lambda that captures \<^verbatim>\<open>&callbacks\<close> holds a reference into the controller
  whose method built it, so it carries that controller's address. The last two stand for
  closures built elsewhere, each known by a tag. Running \<open>External\<close> hands the listed
  closures to \<^verbatim>\<open>execute_in_loop\<close> of the controller whose loop runs it; running
  \<open>Recurring\<close> hands in the closure itself again, so that it is run on and on.
\<close>

datatype deferred_function =
    PassKeyReceived addr string
  | AuthenticationCompleted addr bool
  | LogDebug string
  | ServerConnected addr
  | ServerDisconnected addr
  | External nat "deferred_function list"
  | Recurring nat

text \<open>Invocations of registered observers; an observer is known by the number it was
  registered with.\<close>

datatype observer_call =
    ShowPassKeyCall nat string
  | AuthenticationCompleteCall nat bool
  | ConnectedCall nat
  | DisconnectedCall nat

text \<open>Calls into the BLE stack and the application, in the order they are made.\<close>

datatype stack_call =
    MemRelease
  | BtStart
  | BluedroidInit
  | BluedroidEnable
  | DeviceInit
  | CreateServer
  | SetServerCallbacks addr
  | MaintenanceHandlerSetup addr
  | HandlerSetup handler
  | SetupController addr
  | SetEncryptionLevel
  | SetSecurityCallbacks addr
  | SecuritySettings
  | SetSecurityParam
  | StartAdvertising
  | SetTimeout addr nat

datatype error = NullPointerDereference

subsection \<open>The bounded queue\<close>

text \<open>
  Modelled from the spec: the class of \<^verbatim>\<open>deferred_functions_for_loop\<close> is declared in
  a header that is not part of the source at hand. The spec (4.1) gives its contract:
  \<open>enqueue\<close> appends and returns true, or returns false and drops the item when the queue
  is at capacity; the drain removes the oldest item. The capacity is a parameter.
\<close>

record 'a bounded_queue =
  capacity :: nat
  items :: "'a list"

definition queue_push :: "'a bounded_queue \<Rightarrow> 'a \<Rightarrow> bool \<times> 'a bounded_queue" where
  "queue_push q x =
     (if length (items q) < capacity q then (True, q\<lparr>items := items q @ [x]\<rparr>)
      else (False, q))"

definition queue_take :: "'a bounded_queue \<Rightarrow> ('a \<times> 'a bounded_queue) option" where
  "queue_take q = (case items q of [] \<Rightarrow> None | x # xs \<Rightarrow> Some (x, q\<lparr>items := xs\<rparr>))"

subsection \<open>Controller and world\<close>

text \<open>
  The fields of \<^verbatim>\<open>ESP32BLEController\<close> that the file reads and writes. The two
  registries are \<^verbatim>\<open>std::map\<close>-like containers keyed by object id, kept as association
  lists with one pair per key; a handler pointer is an option, \<open>None\<close> being
  \<^verbatim>\<open>nullptr\<close>. \<open>failed\<close> is the flag of \<^verbatim>\<open>mark_failed()\<close>; a server is known by
  the number of stack calls made before its creation. The last two fields are
  history: the closures the queue has accepted and the closures \<^verbatim>\<open>loop()\<close> has invoked.
\<close>

record controller =
  info_for_component :: "(object_id \<times> BLECharacteristicInfoForHandler) list"
  handler_for_component :: "(object_id \<times> handler option) list"
  on_show_pass_key_callbacks :: "nat list"
  on_authentication_complete_callbacks :: "nat list"
  on_connected_callbacks :: "nat list"
  on_disconnected_callbacks :: "nat list"
  security_enabled :: bool
  ble_mode :: uint8_t
  failed :: bool
  ble_server :: "nat option"
  deferred_functions_for_loop :: "deferred_function bounded_queue"
  accepted :: "deferred_function list"
  invoked :: "deferred_function list"

text \<open>
  Everything outside the controller objects: the global pointer, the preference slot of
  the mode with the trace of \<^verbatim>\<open>save\<close> calls, the number of \<^verbatim>\<open>App.safe_reboot()\<close>
  calls, whether the bluetooth controller runs, and the traces; \<open>external_runs\<close> lists
  the tags of the closures built elsewhere whose bodies have run.
\<close>

record world =
  instances :: "addr \<Rightarrow> controller"
  global_ble_controller :: "addr option"
  stored_mode :: "uint8_t option"
  saves :: "uint8_t list"
  reboots :: nat
  bt_started :: bool
  log_lines :: "log_entry list"
  observer_calls :: "observer_call list"
  sent :: "(handler \<times> state_value) list"
  stack_calls :: "stack_call list"
  external_runs :: "nat list"

definition esp_log :: "log_level \<Rightarrow> string \<Rightarrow> int list \<Rightarrow> world \<Rightarrow> world" where
  "esp_log lvl msg args w = w\<lparr>log_lines := log_lines w @ [(lvl, msg, args)]\<rparr>"

definition call_stack :: "stack_call \<Rightarrow> world \<Rightarrow> world" where
  "call_stack c w = w\<lparr>stack_calls := stack_calls w @ [c]\<rparr>"

definition update_instance :: "addr \<Rightarrow> (controller \<Rightarrow> controller) \<Rightarrow> world \<Rightarrow> world" where
  "update_instance a f w = w\<lparr>instances := (instances w)(a := f (instances w a))\<rparr>"

text \<open>
  Modelled from the spec: the enumeration \<^verbatim>\<open>BLEMaintenanceMode\<close> is declared in a
  header that is not part of the source at hand. The spec lists three operating modes; the
  source casts them to \<^verbatim>\<open>uint8_t\<close> and treats \<^verbatim>\<open>WIFI_ONLY\<close> as the largest one.
  The general theorems below do not depend on the two numbers; the examples unfold them.
\<close>

definition BLE_ONLY :: uint8_t where
  "BLE_ONLY = 0"

definition WIFI_ONLY :: uint8_t where
  "WIFI_ONLY = 2"

subsection \<open>Pre-setup configuration\<close>

definition register_component ::
  "world \<Rightarrow> addr \<Rightarrow> object_id \<Rightarrow> string \<Rightarrow> string \<Rightarrow> bool \<Rightarrow> world" where
  "register_component w this component serviceUUID characteristic_UUID' use_2902 =
     (let info = \<lparr>service_UUID = serviceUUID, characteristic_UUID = characteristic_UUID',
                  use_BLE2902 = use_2902\<rparr>
      in update_instance this
           (\<lambda>c. c\<lparr>info_for_component := AList.update component info (info_for_component c)\<rparr>) w)"

text \<open>\<^verbatim>\<open>CallbackManager::add\<close> appends; \<^verbatim>\<open>call\<close> runs the callbacks from first to last.\<close>

definition add_on_show_pass_key_callback :: "world \<Rightarrow> addr \<Rightarrow> nat \<Rightarrow> world" where
  "add_on_show_pass_key_callback w this f =
     update_instance this
       (\<lambda>c. c\<lparr>on_show_pass_key_callbacks := on_show_pass_key_callbacks c @ [f]\<rparr>) w"

definition add_on_authentication_complete_callback :: "world \<Rightarrow> addr \<Rightarrow> nat \<Rightarrow> world" where
  "add_on_authentication_complete_callback w this f =
     update_instance this
       (\<lambda>c. c\<lparr>on_authentication_complete_callbacks :=
                 on_authentication_complete_callbacks c @ [f]\<rparr>) w"

definition add_on_connected_callback :: "world \<Rightarrow> addr \<Rightarrow> nat \<Rightarrow> world" where
  "add_on_connected_callback w this f =
     update_instance this (\<lambda>c. c\<lparr>on_connected_callbacks := on_connected_callbacks c @ [f]\<rparr>) w"

definition add_on_disconnected_callback :: "world \<Rightarrow> addr \<Rightarrow> nat \<Rightarrow> world" where
  "add_on_disconnected_callback w this f =
     update_instance this
       (\<lambda>c. c\<lparr>on_disconnected_callbacks := on_disconnected_callbacks c @ [f]\<rparr>) w"

definition set_security_enabled :: "world \<Rightarrow> addr \<Rightarrow> bool \<Rightarrow> world" where
  "set_security_enabled w this enabled =
     update_instance this (\<lambda>c. c\<lparr>security_enabled := enabled\<rparr>) w"

subsection \<open>Deferred execution\<close>

definition execute_in_loop :: "world \<Rightarrow> addr \<Rightarrow> deferred_function \<Rightarrow> world" where
  "execute_in_loop w this deferred_function =
     (let (ok, q) = queue_push (deferred_functions_for_loop (instances w this)) deferred_function;
          w1 = update_instance this
                 (\<lambda>c. c\<lparr>deferred_functions_for_loop := q,
                        accepted := (if ok then accepted c @ [deferred_function] else accepted c)\<rparr>) w
      in if \<not> ok then esp_log LOGW ''Deferred functions queue full'' [] w1 else w1)"

definition call_observers :: "(nat \<Rightarrow> observer_call) \<Rightarrow> nat list \<Rightarrow> world \<Rightarrow> world" where
  "call_observers mk callbacks w = w\<lparr>observer_calls := observer_calls w @ map mk callbacks\<rparr>"

text \<open>
  The bodies of the closures. \<open>this\<close> is the controller whose loop runs the closure,
  \<open>owner\<close> the controller whose callback list the closure refers to.
\<close>

fun run_deferred :: "world \<Rightarrow> addr \<Rightarrow> deferred_function \<Rightarrow> world" where
  "run_deferred w this (PassKeyReceived owner pass_key_str) =
     (let w1 = esp_log LOGI ''BLE authentication - pass received'' [] w
      in call_observers (\<lambda>f. ShowPassKeyCall f pass_key_str)
           (on_show_pass_key_callbacks (instances w1 owner)) w1)"
| "run_deferred w this (AuthenticationCompleted owner success) =
     (let w1 = (if success
                then esp_log LOGD ''BLE authentication - completed succesfully'' [] w
                else esp_log LOGD ''BLE authentication - failed'' [] w)
      in call_observers (\<lambda>f. AuthenticationCompleteCall f success)
           (on_authentication_complete_callbacks (instances w1 owner)) w1)"
| "run_deferred w this (LogDebug msg) = esp_log LOGD msg [] w"
| "run_deferred w this (ServerConnected owner) =
     (let w1 = esp_log LOGD ''BLE server - connected'' [] w
      in call_observers ConnectedCall (on_connected_callbacks (instances w1 owner)) w1)"
| "run_deferred w this (ServerDisconnected owner) =
     (let w1 = esp_log LOGD ''BLE server - disconnected'' [] w;
          w2 = call_stack (SetTimeout owner 500) w1
      in call_observers DisconnectedCall (on_disconnected_callbacks (instances w2 owner)) w2)"
| "run_deferred w this (External tag fs) =
     fold (\<lambda>f w'. execute_in_loop w' this f) fs (w\<lparr>external_runs := external_runs w @ [tag]\<rparr>)"
| "run_deferred w this (Recurring tag) =
     execute_in_loop (w\<lparr>external_runs := external_runs w @ [tag]\<rparr>) this (Recurring tag)"

text \<open>
  \<^verbatim>\<open>loop()\<close>. A closure can hand closures in while it runs, so the \<^verbatim>\<open>while\<close> need
  not come to an end: the result is \<open>None\<close> when it does not.
\<close>

partial_function (option) loop :: "world \<Rightarrow> addr \<Rightarrow> world option" where
  "loop w this =
     (case queue_take (deferred_functions_for_loop (instances w this)) of
        None \<Rightarrow> Some w
      | Some (deferred_function, q) \<Rightarrow>
          loop (run_deferred
                  (update_instance this
                     (\<lambda>c. c\<lparr>deferred_functions_for_loop := q,
                            invoked := invoked c @ [deferred_function]\<rparr>) w)
                  this deferred_function) this)"

declare loop.simps [code]

text \<open>One pass of the \<^verbatim>\<open>while\<close> of \<^verbatim>\<open>loop()\<close>: \<^verbatim>\<open>take\<close> finds the queue
  empty and nothing happens, or the closure taken is run.\<close>

definition loop_iteration :: "world \<Rightarrow> addr \<Rightarrow> world" where
  "loop_iteration w this =
     (case queue_take (deferred_functions_for_loop (instances w this)) of
        None \<Rightarrow> w
      | Some (deferred_function, q) \<Rightarrow>
          run_deferred
            (update_instance this
               (\<lambda>c. c\<lparr>deferred_functions_for_loop := q,
                      invoked := invoked c @ [deferred_function]\<rparr>) w)
            this deferred_function)"

text \<open>
  What can happen to the queue of one controller, step by step: a call of
  \<^verbatim>\<open>execute_in_loop\<close>, from any caller; one pass of the \<^verbatim>\<open>while\<close> of a running
  \<^verbatim>\<open>loop()\<close>, so that a call from elsewhere can fall between two passes; a whole call
  of \<^verbatim>\<open>loop()\<close>.
\<close>

datatype queue_step = Enqueue deferred_function | Iteration | Drain

fun run_step :: "addr \<Rightarrow> queue_step \<Rightarrow> world \<Rightarrow> world option" where
  "run_step this (Enqueue f) w = Some (execute_in_loop w this f)"
| "run_step this Iteration w = Some (loop_iteration w this)"
| "run_step this Drain w = loop w this"

text \<open>The steps one after the other; a drain that does not come to an end has no successor.\<close>

fun run_steps :: "world \<Rightarrow> addr \<Rightarrow> queue_step list \<Rightarrow> world option" where
  "run_steps w this [] = Some w"
| "run_steps w this (step # steps) =
     (case run_step this step w of
        None \<Rightarrow> None
      | Some w' \<Rightarrow> run_steps w' this steps)"

subsection \<open>The operating mode\<close>

text \<open>
  The preference object refers to the one slot of the mode. \<^verbatim>\<open>load\<close> fails when the
  slot holds nothing; \<^verbatim>\<open>save\<close> writes the slot, and its result is not read by the source.
\<close>

definition initialize_ble_mode :: "world \<Rightarrow> addr \<Rightarrow> world" where
  "initialize_ble_mode w this =
     (let mode = (case stored_mode w of None \<Rightarrow> BLE_ONLY | Some m \<Rightarrow> m);
          w1 = update_instance this (\<lambda>c. c\<lparr>ble_mode := mode\<rparr>) w
      in esp_log LOGCONFIG ''BLE mode: %d'' [uint mode] w1)"

definition preference_save :: "uint8_t \<Rightarrow> world \<Rightarrow> world" where
  "preference_save v w = w\<lparr>stored_mode := Some v, saves := saves w @ [v]\<rparr>"

definition safe_reboot :: "world \<Rightarrow> world" where
  "safe_reboot w = w\<lparr>reboots := Suc (reboots w)\<rparr>"

definition set_ble_mode :: "world \<Rightarrow> addr \<Rightarrow> uint8_t \<Rightarrow> world" where
  "set_ble_mode w this newMode =
     (if newMode > WIFI_ONLY
      then esp_log LOGI ''Ignoring unsupported BLE mode %d'' [uint newMode] w
      else
        let w1 = esp_log LOGI ''Updating BLE mode to %d'' [uint newMode] w
        in if ble_mode (instances w1 this) \<noteq> newMode
           then
             let w2 = update_instance this (\<lambda>c. c\<lparr>ble_mode := newMode\<rparr>) w1;
                 w3 = preference_save (ble_mode (instances w2 this)) w2
             in safe_reboot w3
           else w1)"

definition get_ble_mode :: "world \<Rightarrow> addr \<Rightarrow> uint8_t" where
  "get_ble_mode w this = ble_mode (instances w this)"

subsection \<open>Publishing component state\<close>

text \<open>\<^verbatim>\<open>operator[]\<close> of the registry: the value stored under the key; a key that
  is not there is first entered with a null pointer.\<close>

definition registry_index ::
  "(object_id \<times> handler option) list \<Rightarrow> object_id
     \<Rightarrow> handler option \<times> (object_id \<times> handler option) list" where
  "registry_index reg k =
     (case map_of reg k of
        Some h \<Rightarrow> (h, reg)
      | None \<Rightarrow> (None, AList.update k None reg))"

definition send_value :: "handler \<Rightarrow> state_value \<Rightarrow> world \<Rightarrow> world" where
  "send_value h v w = w\<lparr>sent := sent w @ [(h, v)]\<rparr>"

definition update_component_state :: "world \<Rightarrow> addr \<Rightarrow> object_id \<Rightarrow> state_value \<Rightarrow> world" where
  "update_component_state w this component state =
     (let object_id = component;
          (handler, reg) = registry_index (handler_for_component (instances w this)) object_id;
          w1 = update_instance this (\<lambda>c. c\<lparr>handler_for_component := reg\<rparr>) w
      in case handler of
           None \<Rightarrow> w1
         | Some h \<Rightarrow> send_value h state w1)"

definition on_binary_sensor_update :: "world \<Rightarrow> addr \<Rightarrow> object_id \<Rightarrow> bool \<Rightarrow> world" where
  "on_binary_sensor_update w this obj state = update_component_state w this obj (BoolState state)"

definition on_sensor_update :: "world \<Rightarrow> addr \<Rightarrow> object_id \<Rightarrow> uint32_t \<Rightarrow> world" where
  "on_sensor_update w this component state =
     update_component_state w this component (FloatState state)"

definition on_switch_update :: "world \<Rightarrow> addr \<Rightarrow> object_id \<Rightarrow> bool \<Rightarrow> world" where
  "on_switch_update w this obj state = update_component_state w this obj (BoolState state)"

definition on_text_sensor_update :: "world \<Rightarrow> addr \<Rightarrow> object_id \<Rightarrow> string \<Rightarrow> world" where
  "on_text_sensor_update w this obj state = update_component_state w this obj (TextState state)"

subsection \<open>Security and connection callbacks\<close>

text \<open>
  \<^verbatim>\<open>snprintf(pass_key_digits, PASS_KEY_LENGTH + 1, "%06d", pass_key)\<close>: the conversion
  \<^verbatim>\<open>%d\<close> reads its argument as a signed \<^verbatim>\<open>int\<close> of 32 bits, pads with zeros after
  the sign up to the width, and \<^verbatim>\<open>snprintf\<close> keeps at most the buffer size less one
  characters.
\<close>

definition PASS_KEY_LENGTH :: nat where
  "PASS_KEY_LENGTH = 6"

definition digit_char :: "nat \<Rightarrow> char" where
  "digit_char d = ''0123456789'' ! (d mod 10)"

fun decimal :: "nat \<Rightarrow> string" where
  "decimal n = (if n < 10 then [digit_char n] else decimal (n div 10) @ [digit_char (n mod 10)])"

declare decimal.simps [simp del]

definition printf_0d :: "nat \<Rightarrow> int \<Rightarrow> string" where
  "printf_0d width i =
     (let sign = (if i < 0 then ''-'' else []);
          digits = decimal (nat \<bar>i\<bar>)
      in sign @ replicate (width - length sign - length digits) CHR ''0'' @ digits)"

definition snprintf :: "nat \<Rightarrow> string \<Rightarrow> string" where
  "snprintf n formatted = take (n - 1) formatted"

definition pass_key_digits :: "uint32_t \<Rightarrow> string" where
  "pass_key_digits pass_key =
     snprintf (PASS_KEY_LENGTH + 1) (printf_0d PASS_KEY_LENGTH (sint pass_key))"

text \<open>
  The callbacks of the stack reach the queue through \<^verbatim>\<open>global_ble_controller\<close>; with
  no controller registered the call goes through a null pointer.
\<close>

definition via_global :: "world \<Rightarrow> deferred_function \<Rightarrow> error + world" where
  "via_global w f =
     (case global_ble_controller w of
        None \<Rightarrow> Inl NullPointerDereference
      | Some g \<Rightarrow> Inr (execute_in_loop w g f))"

definition onPassKeyNotify :: "world \<Rightarrow> addr \<Rightarrow> uint32_t \<Rightarrow> error + world" where
  "onPassKeyNotify w this pass_key =
     (let pass_key_str = pass_key_digits pass_key
      in via_global w (PassKeyReceived this pass_key_str))"

definition onAuthenticationComplete :: "world \<Rightarrow> addr \<Rightarrow> bool \<Rightarrow> error + world" where
  "onAuthenticationComplete w this success = via_global w (AuthenticationCompleted this success)"

definition onPassKeyRequest :: "world \<Rightarrow> addr \<Rightarrow> error + (uint32_t \<times> world)" where
  "onPassKeyRequest w this = map_sum id (Pair 123456) (via_global w (LogDebug ''onPassKeyRequest''))"

definition onSecurityRequest :: "world \<Rightarrow> addr \<Rightarrow> error + (bool \<times> world)" where
  "onSecurityRequest w this = map_sum id (Pair True) (via_global w (LogDebug ''onSecurityRequest''))"

definition onConfirmPIN :: "world \<Rightarrow> addr \<Rightarrow> uint32_t \<Rightarrow> error + (bool \<times> world)" where
  "onConfirmPIN w this pin = map_sum id (Pair True) (via_global w (LogDebug ''onConfirmPIN''))"

definition onConnect :: "world \<Rightarrow> addr \<Rightarrow> error + world" where
  "onConnect w this = via_global w (ServerConnected this)"

definition onDisconnect :: "world \<Rightarrow> addr \<Rightarrow> error + world" where
  "onDisconnect w this = via_global w (ServerDisconnected this)"

subsection \<open>Setup\<close>

text \<open>What the bluetooth controller and bluedroid answer during \<^verbatim>\<open>setup_ble\<close>.\<close>

record bt_environment =
  btStart_ok :: bool
  controller_status :: int
  bluedroid_init_err :: int
  bluedroid_enable_err :: int

definition ESP_OK :: int where
  "ESP_OK = 0"

text \<open>The components of the application, by kind. The kinds that the source passes to an
  overload without a factory function (covers, fans, lights, climates) have no definition
  in the file and are left out.\<close>

record application =
  binary_sensors :: "object_id list"
  sensors :: "object_id list"
  switches :: "object_id list"
  text_sensors :: "object_id list"

definition mark_failed :: "addr \<Rightarrow> world \<Rightarrow> world" where
  "mark_failed this w = update_instance this (\<lambda>c. c\<lparr>failed := True\<rparr>) w"

definition setup_ble :: "world \<Rightarrow> addr \<Rightarrow> bt_environment \<Rightarrow> bool \<times> world" where
  "setup_ble w this env =
     (if bt_started w then (True, esp_log LOGI ''BLE already started'' [] w)
      else
        let w1 = esp_log LOGI ''  Setting up BLE ...'' [] w;
            w2 = call_stack MemRelease w1;
            w3 = call_stack BtStart w2
        in if \<not> btStart_ok env
           then (False, mark_failed this
                   (esp_log LOGE ''btStart failed: %d'' [controller_status env] w3))
           else
             let w4 = call_stack BluedroidInit (w3\<lparr>bt_started := True\<rparr>)
             in if bluedroid_init_err env \<noteq> ESP_OK
                then (False, mark_failed this
                        (esp_log LOGE ''esp_bluedroid_init failed: %d'' [bluedroid_init_err env] w4))
                else
                  let w5 = call_stack BluedroidEnable w4
                  in if bluedroid_enable_err env \<noteq> ESP_OK
                     then (False, mark_failed this
                             (esp_log LOGE ''esp_bluedroid_enable failed: %d''
                                [bluedroid_enable_err env] w5))
                     else (True, w5))"

definition setup_ble_service_for_component ::
  "component_kind \<Rightarrow> addr \<Rightarrow> object_id \<Rightarrow> world \<Rightarrow> world" where
  "setup_ble_service_for_component kind this component w =
     (let object_id = component
      in case map_of (info_for_component (instances w this)) object_id of
           None \<Rightarrow> w
         | Some info \<Rightarrow>
             update_instance this
               (\<lambda>c. c\<lparr>handler_for_component :=
                        AList.update object_id
                          (Some \<lparr>handler_kind = kind, handler_component = component,
                                 handler_info = info\<rparr>)
                          (handler_for_component c)\<rparr>) w)"

definition setup_ble_services_for_components_of ::
  "component_kind \<Rightarrow> addr \<Rightarrow> object_id list \<Rightarrow> world \<Rightarrow> world" where
  "setup_ble_services_for_components_of kind this components w =
     fold (setup_ble_service_for_component kind this) components w"

text \<open>
  The loop over the handler registry: \<^verbatim>\<open>entry.second->setup(ble_server)\<close>. The
  entries are taken in the order of the association list; the order in which the container
  of the source yields them is not modelled, and no property below speaks of it.
\<close>

fun setup_handlers :: "(object_id \<times> handler option) list \<Rightarrow> world \<Rightarrow> error + world" where
  "setup_handlers [] w = Inr w"
| "setup_handlers ((k, None) # entries) w = Inl NullPointerDereference"
| "setup_handlers ((k, Some h) # entries) w = setup_handlers entries (call_stack (HandlerSetup h) w)"

definition setup_ble_services_for_components :: "world \<Rightarrow> addr \<Rightarrow> application \<Rightarrow> error + world" where
  "setup_ble_services_for_components w this app =
     (let w1 = setup_ble_services_for_components_of BinarySensor this (binary_sensors app) w;
          w2 = setup_ble_services_for_components_of Sensor this (sensors app) w1;
          w3 = setup_ble_services_for_components_of Switch this (switches app) w2;
          w4 = setup_ble_services_for_components_of TextSensor this (text_sensors app) w3
      in setup_handlers (handler_for_component (instances w4 this)) w4)"

definition setup_ble_server_and_services :: "world \<Rightarrow> addr \<Rightarrow> application \<Rightarrow> error + world" where
  "setup_ble_server_and_services w this app =
     (let w1 = call_stack CreateServer
                 (update_instance this (\<lambda>c. c\<lparr>ble_server := Some (length (stack_calls w))\<rparr>) w);
          w2 = call_stack (SetServerCallbacks this) w1;
          w3 = call_stack (MaintenanceHandlerSetup this) w2
      in if get_ble_mode w3 this \<noteq> WIFI_ONLY
         then setup_ble_services_for_components w3 this app
         else Inr w3)"

definition enable_ble_security :: "world \<Rightarrow> addr \<Rightarrow> world" where
  "enable_ble_security w this =
     (if \<not> security_enabled (instances w this) then w
      else
        let w1 = esp_log LOGD ''  Setting up BLE security'' [] w;
            w2 = call_stack SetEncryptionLevel w1;
            w3 = call_stack (SetSecurityCallbacks this) w2;
            w4 = call_stack SecuritySettings w3
        in call_stack SetSecurityParam w4)"

text \<open>\<^verbatim>\<open>ESP32BLEController::setup()\<close>.\<close>

definition controller_setup ::
  "world \<Rightarrow> addr \<Rightarrow> bt_environment \<Rightarrow> application \<Rightarrow> error + world" where
  "controller_setup w this env app =
     (let w0 = esp_log LOGCONFIG ''Setting up BLE controller...'' [] w;
          w1 = initialize_ble_mode w0 this;
          (ok, w2) = setup_ble w1 this env
      in if \<not> ok then Inr w2
         else
           let w3 = (if global_ble_controller w2 = None
                     then w2\<lparr>global_ble_controller := Some this\<rparr>
                     else esp_log LOGE ''Already have an instance of the BLE controller'' [] w2);
               w4 = call_stack DeviceInit w3
           in case setup_ble_server_and_services w4 this app of
                Inl e \<Rightarrow> Inl e
              | Inr w5 \<Rightarrow>
                  let w6 = call_stack (SetupController this) w5;
                      w7 = enable_ble_security w6 this
                  in Inr (call_stack StartAdvertising w7))"

text \<open>A controller as its constructor leaves it, with a queue of the given capacity, and a
  world in which nothing has happened yet.\<close>

definition new_controller :: "nat \<Rightarrow> controller" where
  "new_controller cap =
     \<lparr>info_for_component = [], handler_for_component = [],
      on_show_pass_key_callbacks = [], on_authentication_complete_callbacks = [],
      on_connected_callbacks = [], on_disconnected_callbacks = [],
      security_enabled = False, ble_mode = BLE_ONLY, failed = False, ble_server = None,
      deferred_functions_for_loop = \<lparr>capacity = cap, items = []\<rparr>,
      accepted = [], invoked = []\<rparr>"

definition initial_world :: "nat \<Rightarrow> world" where
  "initial_world cap =
     \<lparr>instances = (\<lambda>a. new_controller cap), global_ble_controller = None,
      stored_mode = None, saves = [], reboots = 0, bt_started = False,
      log_lines = [], observer_calls = [], sent = [], stack_calls = [], external_runs = []\<rparr>"

subsection \<open>Properties of a controller's queue\<close>

text \<open>The history of a controller agrees with its queue when the closures invoked so far,
  followed by the closures still waiting, are the closures accepted so far, in that order.\<close>

definition history_ok :: "controller \<Rightarrow> bool" where
  "history_ok c \<longleftrightarrow> invoked c @ items (deferred_functions_for_loop c) = accepted c"

definition within_capacity :: "controller \<Rightarrow> bool" where
  "within_capacity c \<longleftrightarrow>
     length (items (deferred_functions_for_loop c)) \<le> capacity (deferred_functions_for_loop c)"

text \<open>No entry of the handler registry holds a null pointer.\<close>

definition handlers_present :: "controller \<Rightarrow> bool" where
  "handlers_present c \<longleftrightarrow> None \<notin> snd ` set (handler_for_component c)"

text \<open>\<^verbatim>\<open>setup_ble\<close> returns true: bluetooth runs already, or every step of starting
  it succeeds.\<close>

definition bt_comes_up :: "world \<Rightarrow> bt_environment \<Rightarrow> bool" where
  "bt_comes_up w env \<longleftrightarrow>
     bt_started w
     \<or> btStart_ok env \<and> bluedroid_init_err env = ESP_OK \<and> bluedroid_enable_err env = ESP_OK"

text \<open>
  A closure that hands neither itself in again nor a closure that does. The weight of a
  closure counts it together with the closures it can hand in; it measures the drain of a
  queue of such closures.
\<close>

fun nonrecurring :: "deferred_function \<Rightarrow> bool" where
  "nonrecurring (Recurring tag) = False"
| "nonrecurring (External tag fs) = list_all nonrecurring fs"
| "nonrecurring f = True"

fun weight :: "deferred_function \<Rightarrow> nat" where
  "weight (External tag fs) = Suc (sum_list (map weight fs))"
| "weight f = 1"

definition pending_weight :: "world \<Rightarrow> addr \<Rightarrow> nat" where
  "pending_weight w a =
     sum_list (map weight (items (deferred_functions_for_loop (instances w a))))"

definition queue_nonrecurring :: "controller \<Rightarrow> bool" where
  "queue_nonrecurring c = list_all nonrecurring (items (deferred_functions_for_loop c))"

fun step_nonrecurring :: "queue_step \<Rightarrow> bool" where
  "step_nonrecurring (Enqueue f) = nonrecurring f"
| "step_nonrecurring step = True"

text \<open>
  What running one closure adds to each trace of the world. The observers are those
  registered with the closure's controller; the lines are the closure's own, which are
  never warnings.
\<close>

fun closure_observer_calls :: "(addr \<Rightarrow> controller) \<Rightarrow> deferred_function \<Rightarrow> observer_call list" where
  "closure_observer_calls inst (PassKeyReceived owner pass_key_str) =
     map (\<lambda>f. ShowPassKeyCall f pass_key_str) (on_show_pass_key_callbacks (inst owner))"
| "closure_observer_calls inst (AuthenticationCompleted owner success) =
     map (\<lambda>f. AuthenticationCompleteCall f success)
       (on_authentication_complete_callbacks (inst owner))"
| "closure_observer_calls inst (ServerConnected owner) =
     map ConnectedCall (on_connected_callbacks (inst owner))"
| "closure_observer_calls inst (ServerDisconnected owner) =
     map DisconnectedCall (on_disconnected_callbacks (inst owner))"
| "closure_observer_calls inst f = []"

fun closure_log_lines :: "deferred_function \<Rightarrow> log_entry list" where
  "closure_log_lines (PassKeyReceived owner pass_key_str) =
     [(LOGI, ''BLE authentication - pass received'', [])]"
| "closure_log_lines (AuthenticationCompleted owner success) =
     [(LOGD, if success then ''BLE authentication - completed succesfully''
             else ''BLE authentication - failed'', [])]"
| "closure_log_lines (LogDebug msg) = [(LOGD, msg, [])]"
| "closure_log_lines (ServerConnected owner) = [(LOGD, ''BLE server - connected'', [])]"
| "closure_log_lines (ServerDisconnected owner) = [(LOGD, ''BLE server - disconnected'', [])]"
| "closure_log_lines f = []"

fun closure_stack_calls :: "deferred_function \<Rightarrow> stack_call list" where
  "closure_stack_calls (ServerDisconnected owner) = [SetTimeout owner 500]"
| "closure_stack_calls f = []"

fun closure_external_runs :: "deferred_function \<Rightarrow> nat list" where
  "closure_external_runs (External tag fs) = [tag]"
| "closure_external_runs (Recurring tag) = [tag]"
| "closure_external_runs f = []"

text \<open>The log without the warnings of \<^verbatim>\<open>execute_in_loop\<close>.\<close>

definition closure_lines :: "world \<Rightarrow> log_entry list" where
  "closure_lines w = filter (\<lambda>line. fst line \<noteq> LOGW) (log_lines w)"

definition observers_of :: "controller \<Rightarrow> nat list \<times> nat list \<times> nat list \<times> nat list" where
  "observers_of c =
     (on_show_pass_key_callbacks c, on_authentication_complete_callbacks c,
      on_connected_callbacks c, on_disconnected_callbacks c)"

text \<open>
  Between two worlds the loop of a controller has run the closures \<open>fs\<close>, in that order,
  and nothing else has touched the traces: each trace has grown by what these closures add,
  one after the other, and the observer lists are as they were.
\<close>

definition ran_between :: "addr \<Rightarrow> world \<Rightarrow> world \<Rightarrow> deferred_function list \<Rightarrow> bool" where
  "ran_between this w w' fs \<longleftrightarrow>
     invoked (instances w' this) = invoked (instances w this) @ fs
     \<and> observers_of \<circ> instances w' = observers_of \<circ> instances w
     \<and> observer_calls w' = observer_calls w @ concat (map (closure_observer_calls (instances w)) fs)
     \<and> closure_lines w' = closure_lines w @ concat (map closure_log_lines fs)
     \<and> stack_calls w' = stack_calls w @ concat (map closure_stack_calls fs)
     \<and> external_runs w' = external_runs w @ concat (map closure_external_runs fs)"

text \<open>The number a string of decimal digits stands for.\<close>

definition digits_value :: "string \<Rightarrow> nat" where
  "digits_value s = foldl (\<lambda>v c. 10 * v + (of_char c - of_char CHR ''0'')) 0 s"

section \<open>The deferred-functions queue\<close>

lemma loop_empty:
  "items (deferred_functions_for_loop (instances w this)) = [] \<Longrightarrow> loop w this = Some w"
  by (subst loop.simps) (simp add: queue_take_def)

lemma loop_Cons:
  "items (deferred_functions_for_loop (instances w this)) = f # fs \<Longrightarrow>
   loop w this =
     loop (run_deferred
             (update_instance this
                (\<lambda>c. c\<lparr>deferred_functions_for_loop :=
                         (deferred_functions_for_loop (instances w this))\<lparr>items := fs\<rparr>,
                       invoked := invoked c @ [f]\<rparr>) w)
             this f) this"
  by (subst loop.simps) (simp add: queue_take_def)

lemma loop_iteration_empty:
  "items (deferred_functions_for_loop (instances w this)) = [] \<Longrightarrow> loop_iteration w this = w"
  by (simp add: loop_iteration_def queue_take_def)

lemma loop_iteration_Cons:
  "items (deferred_functions_for_loop (instances w this)) = f # fs \<Longrightarrow>
   loop_iteration w this =
     run_deferred
       (update_instance this
          (\<lambda>c. c\<lparr>deferred_functions_for_loop :=
                   (deferred_functions_for_loop (instances w this))\<lparr>items := fs\<rparr>,
                 invoked := invoked c @ [f]\<rparr>) w)
       this f"
  by (simp add: loop_iteration_def queue_take_def)

lemma loop_by_iterations:
  "loop w this =
     (if items (deferred_functions_for_loop (instances w this)) = [] then Some w
      else loop (loop_iteration w this) this)"
  by (cases "items (deferred_functions_for_loop (instances w this))")
    (simp_all add: loop_empty loop_Cons loop_iteration_Cons)

text \<open>A drain that comes to an end has made some number of passes and found the queue
  empty.\<close>

lemma loop_Some_iterations:
  assumes "loop w this = Some w'"
  shows "\<exists>n. w' = ((\<lambda>v. loop_iteration v this) ^^ n) w
            \<and> items (deferred_functions_for_loop (instances w' this)) = []"
proof (rule loop.raw_induct
    [where P = "\<lambda>w this w'. \<exists>n. w' = ((\<lambda>v. loop_iteration v this) ^^ n) w
                  \<and> items (deferred_functions_for_loop (instances w' this)) = []",
     OF _ assms])
  fix loop' :: "world \<Rightarrow> addr \<Rightarrow> world option" and w this w'
  assume IH: "\<And>w this y. loop' w this = Some y \<Longrightarrow>
                \<exists>n. y = ((\<lambda>v. loop_iteration v this) ^^ n) w
                  \<and> items (deferred_functions_for_loop (instances y this)) = []"
    and body: "(case queue_take (deferred_functions_for_loop (instances w this)) of
                  None \<Rightarrow> Some w
                | Some (deferred_function, q) \<Rightarrow>
                    loop' (run_deferred
                             (update_instance this
                                (\<lambda>c. c\<lparr>deferred_functions_for_loop := q,
                                       invoked := invoked c @ [deferred_function]\<rparr>) w)
                             this deferred_function) this) = Some w'"
  show "\<exists>n. w' = ((\<lambda>v. loop_iteration v this) ^^ n) w
            \<and> items (deferred_functions_for_loop (instances w' this)) = []"
  proof (cases "items (deferred_functions_for_loop (instances w this))")
    case Nil
    with body have "w' = w" by (simp add: queue_take_def)
    with Nil have "w' = ((\<lambda>v. loop_iteration v this) ^^ 0) w
        \<and> items (deferred_functions_for_loop (instances w' this)) = []"
      by simp
    then show ?thesis by blast
  next
    case (Cons f fs)
    with body have "loop' (loop_iteration w this) this = Some w'"
      by (simp add: queue_take_def loop_iteration_def)
    from IH [OF this] obtain n where
      n: "w' = ((\<lambda>v. loop_iteration v this) ^^ n) (loop_iteration w this)"
      and e: "items (deferred_functions_for_loop (instances w' this)) = []"
      by blast
    from n have "w' = ((\<lambda>v. loop_iteration v this) ^^ Suc n) w"
      by (simp only: funpow_Suc_right o_apply)
    with e show ?thesis by blast
  qed
qed

lemma execute_in_loop_full:
  "capacity (deferred_functions_for_loop (instances w this))
     \<le> length (items (deferred_functions_for_loop (instances w this))) \<Longrightarrow>
   execute_in_loop w this f = esp_log LOGW ''Deferred functions queue full'' [] w"
  by (simp add: execute_in_loop_def queue_push_def update_instance_def)

lemma execute_in_loop_room:
  "length (items (deferred_functions_for_loop (instances w this)))
     < capacity (deferred_functions_for_loop (instances w this)) \<Longrightarrow>
   execute_in_loop w this f =
     update_instance this
       (\<lambda>c. c\<lparr>deferred_functions_for_loop :=
                (deferred_functions_for_loop c)\<lparr>items := items (deferred_functions_for_loop c) @ [f]\<rparr>,
              accepted := accepted c @ [f]\<rparr>) w"
  by (simp add: execute_in_loop_def queue_push_def update_instance_def)

lemma execute_in_loop_history_ok:
  "history_ok (instances w b) \<Longrightarrow> history_ok (instances (execute_in_loop w a f) b)"
  by (auto simp: execute_in_loop_def queue_push_def update_instance_def esp_log_def history_ok_def)

lemma execute_in_loop_within_capacity:
  "within_capacity (instances w b) \<Longrightarrow> within_capacity (instances (execute_in_loop w a f) b)"
  by (simp add: execute_in_loop_def queue_push_def update_instance_def esp_log_def
      within_capacity_def)

lemma execute_in_loop_capacity:
  "capacity (deferred_functions_for_loop (instances (execute_in_loop w a f) b))
     = capacity (deferred_functions_for_loop (instances w b))"
  by (simp add: execute_in_loop_def queue_push_def update_instance_def esp_log_def)

lemma execute_in_loop_accepted:
  "\<exists>ys. accepted (instances (execute_in_loop w a f) b) = accepted (instances w b) @ ys"
  by (simp add: execute_in_loop_def queue_push_def update_instance_def esp_log_def)

lemma fold_execute_in_loop_history_ok:
  "history_ok (instances w b) \<Longrightarrow>
   history_ok (instances (fold (\<lambda>f w'. execute_in_loop w' a f) fs w) b)"
  by (induction fs arbitrary: w) (simp_all add: execute_in_loop_history_ok)

lemma fold_execute_in_loop_within_capacity:
  "within_capacity (instances w b) \<Longrightarrow>
   within_capacity (instances (fold (\<lambda>f w'. execute_in_loop w' a f) fs w) b)"
  by (induction fs arbitrary: w) (simp_all add: execute_in_loop_within_capacity)

lemma fold_execute_in_loop_capacity:
  "capacity (deferred_functions_for_loop (instances (fold (\<lambda>f w'. execute_in_loop w' a f) fs w) b))
     = capacity (deferred_functions_for_loop (instances w b))"
  by (induction fs arbitrary: w) (simp_all add: execute_in_loop_capacity)

lemma fold_execute_in_loop_accepted:
  "\<exists>ys. accepted (instances (fold (\<lambda>f w'. execute_in_loop w' a f) fs w) b)
           = accepted (instances w b) @ ys"
proof (induction fs arbitrary: w)
  case Nil
  then show ?case by simp
next
  case (Cons f fs)
  obtain ys where "accepted (instances (execute_in_loop w a f) b) = accepted (instances w b) @ ys"
    using execute_in_loop_accepted by blast
  moreover obtain zs where
    "accepted (instances (fold (\<lambda>f w'. execute_in_loop w' a f) fs (execute_in_loop w a f)) b)
       = accepted (instances (execute_in_loop w a f) b) @ zs"
    using Cons.IH by blast
  ultimately show ?case by simp
qed


lemma run_deferred_history_ok:
  "history_ok (instances w b) \<Longrightarrow> history_ok (instances (run_deferred w a f) b)"
  by (cases f)
    (simp_all add: esp_log_def call_observers_def call_stack_def Let_def
      fold_execute_in_loop_history_ok execute_in_loop_history_ok)

lemma run_deferred_within_capacity:
  "within_capacity (instances w b) \<Longrightarrow> within_capacity (instances (run_deferred w a f) b)"
  by (cases f)
    (simp_all add: esp_log_def call_observers_def call_stack_def Let_def
      fold_execute_in_loop_within_capacity execute_in_loop_within_capacity)

lemma run_deferred_capacity:
  "capacity (deferred_functions_for_loop (instances (run_deferred w a f) b))
     = capacity (deferred_functions_for_loop (instances w b))"
  by (cases f)
    (simp_all add: esp_log_def call_observers_def call_stack_def Let_def
      fold_execute_in_loop_capacity execute_in_loop_capacity)

lemma run_deferred_accepted:
  "\<exists>ys. accepted (instances (run_deferred w a f) b) = accepted (instances w b) @ ys"
proof (cases f)
  case (External tag fs)
  then show ?thesis
    using fold_execute_in_loop_accepted
      [of a fs "w\<lparr>external_runs := external_runs w @ [tag]\<rparr>" b]
    by simp
next
  case (Recurring tag)
  then show ?thesis
    using execute_in_loop_accepted [of "w\<lparr>external_runs := external_runs w @ [tag]\<rparr>" a f b]
    by simp
qed (simp_all add: esp_log_def call_observers_def call_stack_def Let_def)

lemma loop_iteration_history_ok:
  assumes "history_ok (instances w b)"
  shows "history_ok (instances (loop_iteration w a) b)"
proof (cases "items (deferred_functions_for_loop (instances w a))")
  case Nil
  with assms show ?thesis by (simp add: loop_iteration_empty)
next
  case (Cons f fs)
  let ?w1 = "update_instance a
               (\<lambda>c. c\<lparr>deferred_functions_for_loop :=
                        (deferred_functions_for_loop (instances w a))\<lparr>items := fs\<rparr>,
                      invoked := invoked c @ [f]\<rparr>) w"
  have "history_ok (instances ?w1 b)"
    using assms Cons by (auto simp: history_ok_def update_instance_def)
  then show ?thesis
    by (simp add: loop_iteration_Cons [OF Cons] run_deferred_history_ok)
qed

lemma loop_iteration_within_capacity:
  assumes "within_capacity (instances w b)"
  shows "within_capacity (instances (loop_iteration w a) b)"
proof (cases "items (deferred_functions_for_loop (instances w a))")
  case Nil
  with assms show ?thesis by (simp add: loop_iteration_empty)
next
  case (Cons f fs)
  let ?w1 = "update_instance a
               (\<lambda>c. c\<lparr>deferred_functions_for_loop :=
                        (deferred_functions_for_loop (instances w a))\<lparr>items := fs\<rparr>,
                      invoked := invoked c @ [f]\<rparr>) w"
  have "within_capacity (instances ?w1 b)"
    using assms Cons by (auto simp: within_capacity_def update_instance_def)
  then show ?thesis
    by (simp add: loop_iteration_Cons [OF Cons] run_deferred_within_capacity)
qed

lemma loop_iteration_capacity:
  "capacity (deferred_functions_for_loop (instances (loop_iteration w a) b))
     = capacity (deferred_functions_for_loop (instances w b))"
proof (cases "items (deferred_functions_for_loop (instances w a))")
  case Nil
  then show ?thesis by (simp add: loop_iteration_empty)
next
  case (Cons f fs)
  then show ?thesis
    by (simp add: loop_iteration_Cons [OF Cons] run_deferred_capacity update_instance_def)
qed

lemma loop_iteration_accepted:
  "\<exists>ys. accepted (instances (loop_iteration w a) b) = accepted (instances w b) @ ys"
proof (cases "items (deferred_functions_for_loop (instances w a))")
  case Nil
  then show ?thesis by (simp add: loop_iteration_empty)
next
  case (Cons f fs)
  let ?w1 = "update_instance a
               (\<lambda>c. c\<lparr>deferred_functions_for_loop :=
                        (deferred_functions_for_loop (instances w a))\<lparr>items := fs\<rparr>,
                      invoked := invoked c @ [f]\<rparr>) w"
  obtain ys where "accepted (instances (run_deferred ?w1 a f) b) = accepted (instances ?w1 b) @ ys"
    using run_deferred_accepted by blast
  moreover have "accepted (instances ?w1 b) = accepted (instances w b)"
    by (simp add: update_instance_def)
  ultimately show ?thesis
    by (simp add: loop_iteration_Cons [OF Cons])
qed

text \<open>What every pass keeps, a number of passes keeps, and so does a drain that comes to an
  end.\<close>

lemma iterations_history_ok:
  "history_ok (instances w b) \<Longrightarrow>
   history_ok (instances (((\<lambda>v. loop_iteration v a) ^^ n) w) b)"
  by (induction n) (simp_all add: loop_iteration_history_ok)

lemma iterations_within_capacity:
  "within_capacity (instances w b) \<Longrightarrow>
   within_capacity (instances (((\<lambda>v. loop_iteration v a) ^^ n) w) b)"
  by (induction n) (simp_all add: loop_iteration_within_capacity)

lemma iterations_capacity:
  "capacity (deferred_functions_for_loop (instances (((\<lambda>v. loop_iteration v a) ^^ n) w) b))
     = capacity (deferred_functions_for_loop (instances w b))"
  by (induction n) (simp_all add: loop_iteration_capacity)

lemma iterations_accepted:
  "\<exists>ys. accepted (instances (((\<lambda>v. loop_iteration v a) ^^ n) w) b) = accepted (instances w b) @ ys"
proof (induction n)
  case 0
  then show ?case by simp
next
  case (Suc n)
  then obtain ys where
    "accepted (instances (((\<lambda>v. loop_iteration v a) ^^ n) w) b) = accepted (instances w b) @ ys"
    by blast
  moreover obtain zs where
    "accepted (instances (loop_iteration (((\<lambda>v. loop_iteration v a) ^^ n) w) a) b)
       = accepted (instances (((\<lambda>v. loop_iteration v a) ^^ n) w) b) @ zs"
    using loop_iteration_accepted by blast
  ultimately show ?case by simp
qed

lemma loop_history_ok:
  assumes "loop w a = Some w'" and "history_ok (instances w b)"
  shows "history_ok (instances w' b)"
proof -
  from loop_Some_iterations [OF assms(1)]
  obtain n where "w' = ((\<lambda>v. loop_iteration v a) ^^ n) w" by blast
  with assms(2) show ?thesis by (simp add: iterations_history_ok)
qed

lemma loop_within_capacity:
  assumes "loop w a = Some w'" and "within_capacity (instances w b)"
  shows "within_capacity (instances w' b)"
proof -
  from loop_Some_iterations [OF assms(1)]
  obtain n where "w' = ((\<lambda>v. loop_iteration v a) ^^ n) w" by blast
  with assms(2) show ?thesis by (simp add: iterations_within_capacity)
qed

lemma loop_capacity:
  assumes "loop w a = Some w'"
  shows "capacity (deferred_functions_for_loop (instances w' b))
           = capacity (deferred_functions_for_loop (instances w b))"
proof -
  from loop_Some_iterations [OF assms]
  obtain n where "w' = ((\<lambda>v. loop_iteration v a) ^^ n) w" by blast
  then show ?thesis by (simp add: iterations_capacity)
qed

lemma loop_accepted:
  assumes "loop w a = Some w'"
  shows "\<exists>ys. accepted (instances w' b) = accepted (instances w b) @ ys"
proof -
  from loop_Some_iterations [OF assms]
  obtain n where "w' = ((\<lambda>v. loop_iteration v a) ^^ n) w" by blast
  then show ?thesis by (simp add: iterations_accepted)
qed

lemma loop_drains:
  "loop w this = Some w' \<Longrightarrow> items (deferred_functions_for_loop (instances w' this)) = []"
  using loop_Some_iterations [of w this w'] by auto

lemma execute_in_loop_nonrecurring:
  "queue_nonrecurring (instances w b) \<Longrightarrow> nonrecurring f \<Longrightarrow>
   queue_nonrecurring (instances (execute_in_loop w a f) b)"
  by (auto simp: execute_in_loop_def queue_push_def update_instance_def esp_log_def
      queue_nonrecurring_def)

lemma fold_execute_in_loop_nonrecurring:
  "queue_nonrecurring (instances w b) \<Longrightarrow> list_all nonrecurring fs \<Longrightarrow>
   queue_nonrecurring (instances (fold (\<lambda>f w'. execute_in_loop w' a f) fs w) b)"
  by (induction fs arbitrary: w) (simp_all add: execute_in_loop_nonrecurring)

lemma run_deferred_nonrecurring:
  "queue_nonrecurring (instances w b) \<Longrightarrow> nonrecurring f \<Longrightarrow>
   queue_nonrecurring (instances (run_deferred w a f) b)"
proof (cases f)
  case (External tag fs)
  assume "queue_nonrecurring (instances w b)" and "nonrecurring f"
  with External show ?thesis
    using fold_execute_in_loop_nonrecurring
      [of "w\<lparr>external_runs := external_runs w @ [tag]\<rparr>" b fs a]
    by simp
qed (simp_all add: esp_log_def call_observers_def call_stack_def Let_def)

lemma loop_iteration_nonrecurring:
  assumes "queue_nonrecurring (instances w this)"
  shows "queue_nonrecurring (instances (loop_iteration w this) this)"
proof (cases "items (deferred_functions_for_loop (instances w this))")
  case Nil
  with assms show ?thesis by (simp add: loop_iteration_empty)
next
  case (Cons f fs)
  let ?w1 = "update_instance this
               (\<lambda>c. c\<lparr>deferred_functions_for_loop :=
                        (deferred_functions_for_loop (instances w this))\<lparr>items := fs\<rparr>,
                      invoked := invoked c @ [f]\<rparr>) w"
  from assms Cons have "nonrecurring f" and "queue_nonrecurring (instances ?w1 this)"
    by (auto simp: queue_nonrecurring_def update_instance_def)
  then show ?thesis
    by (simp add: loop_iteration_Cons [OF Cons] run_deferred_nonrecurring)
qed

lemma pending_weight_execute_in_loop:
  "pending_weight (execute_in_loop w a f) a \<le> pending_weight w a + weight f"
  by (simp add: pending_weight_def execute_in_loop_def queue_push_def update_instance_def
      esp_log_def)

lemma pending_weight_fold:
  "pending_weight (fold (\<lambda>f w'. execute_in_loop w' a f) fs w) a
     \<le> pending_weight w a + sum_list (map weight fs)"
proof (induction fs arbitrary: w)
  case Nil
  then show ?case by simp
next
  case (Cons f fs)
  have "pending_weight (fold (\<lambda>f w'. execute_in_loop w' a f) fs (execute_in_loop w a f)) a
          \<le> pending_weight (execute_in_loop w a f) a + sum_list (map weight fs)"
    by (rule Cons.IH)
  also have "\<dots> \<le> pending_weight w a + weight f + sum_list (map weight fs)"
    using pending_weight_execute_in_loop [of w a f] by simp
  finally show ?case by simp
qed

lemma pending_weight_run_deferred:
  assumes "nonrecurring f"
  shows "pending_weight (run_deferred w a f) a < pending_weight w a + weight f"
proof (cases f)
  case (External tag fs)
  have "pending_weight (w\<lparr>external_runs := external_runs w @ [tag]\<rparr>) a = pending_weight w a"
    by (simp add: pending_weight_def)
  with External show ?thesis
    using pending_weight_fold [of a fs "w\<lparr>external_runs := external_runs w @ [tag]\<rparr>"]
    by simp
next
  case (Recurring tag)
  with assms show ?thesis by simp
qed (simp_all add: pending_weight_def esp_log_def call_observers_def call_stack_def Let_def)

text \<open>A queue of closures that do not recur is drained after finitely many passes.\<close>

lemma loop_returns:
  "queue_nonrecurring (instances w this) \<Longrightarrow> \<exists>w'. loop w this = Some w'"
proof (induction "pending_weight w this" arbitrary: w rule: less_induct)
  case less
  show ?case
  proof (cases "items (deferred_functions_for_loop (instances w this))")
    case Nil
    then show ?thesis by (simp add: loop_empty)
  next
    case (Cons f fs)
    let ?w1 = "update_instance this
                 (\<lambda>c. c\<lparr>deferred_functions_for_loop :=
                          (deferred_functions_for_loop (instances w this))\<lparr>items := fs\<rparr>,
                        invoked := invoked c @ [f]\<rparr>) w"
    from less.prems Cons have f: "nonrecurring f" and q: "queue_nonrecurring (instances ?w1 this)"
      by (auto simp: queue_nonrecurring_def update_instance_def)
    have "pending_weight ?w1 this + weight f = pending_weight w this"
      using Cons by (simp add: pending_weight_def update_instance_def)
    with pending_weight_run_deferred [OF f, of ?w1 this]
    have "pending_weight (run_deferred ?w1 this f) this < pending_weight w this"
      by simp
    moreover have "queue_nonrecurring (instances (run_deferred ?w1 this f) this)"
      using q f by (rule run_deferred_nonrecurring)
    ultimately obtain w' where "loop (run_deferred ?w1 this f) this = Some w'"
      using less.hyps by blast
    then show ?thesis by (simp add: loop_Cons [OF Cons])
  qed
qed

text \<open>A step keeps what a call of \<^verbatim>\<open>execute_in_loop\<close>, a pass and a drain keep, and so
  does a sequence of steps.\<close>

lemma run_step_history_ok:
  "run_step a s w = Some w' \<Longrightarrow> history_ok (instances w b) \<Longrightarrow> history_ok (instances w' b)"
  by (cases s)
    (auto simp: execute_in_loop_history_ok loop_iteration_history_ok intro: loop_history_ok)

lemma run_step_within_capacity:
  "run_step a s w = Some w' \<Longrightarrow> within_capacity (instances w b) \<Longrightarrow>
   within_capacity (instances w' b)"
  by (cases s)
    (auto simp: execute_in_loop_within_capacity loop_iteration_within_capacity
      intro: loop_within_capacity)

lemma run_step_capacity:
  "run_step a s w = Some w' \<Longrightarrow>
   capacity (deferred_functions_for_loop (instances w' b))
     = capacity (deferred_functions_for_loop (instances w b))"
  by (cases s) (auto simp: execute_in_loop_capacity loop_iteration_capacity loop_capacity)

lemma run_step_accepted:
  "run_step a s w = Some w' \<Longrightarrow>
   \<exists>ys. accepted (instances w' b) = accepted (instances w b) @ ys"
  by (cases s) (auto simp: execute_in_loop_accepted loop_iteration_accepted loop_accepted)

lemma run_step_returns:
  assumes "queue_nonrecurring (instances w this)" and "step_nonrecurring s"
  shows "\<exists>w'. run_step this s w = Some w' \<and> queue_nonrecurring (instances w' this)"
proof (cases s)
  case (Enqueue f)
  with assms show ?thesis by (simp add: execute_in_loop_nonrecurring)
next
  case Iteration
  with assms show ?thesis by (simp add: loop_iteration_nonrecurring)
next
  case Drain
  from loop_returns [OF assms(1)] obtain w' where w': "loop w this = Some w'" by blast
  from loop_drains [OF w'] have "queue_nonrecurring (instances w' this)"
    by (simp add: queue_nonrecurring_def)
  with Drain w' show ?thesis by simp
qed

lemma run_steps_history_ok:
  "run_steps w a steps = Some w' \<Longrightarrow> history_ok (instances w b) \<Longrightarrow>
   history_ok (instances w' b)"
  by (induction steps arbitrary: w) (auto split: option.splits dest: run_step_history_ok)

lemma run_steps_within_capacity:
  "run_steps w a steps = Some w' \<Longrightarrow> within_capacity (instances w b) \<Longrightarrow>
   within_capacity (instances w' b)"
  by (induction steps arbitrary: w) (auto split: option.splits dest: run_step_within_capacity)

lemma run_steps_capacity:
  "run_steps w a steps = Some w' \<Longrightarrow>
   capacity (deferred_functions_for_loop (instances w' b))
     = capacity (deferred_functions_for_loop (instances w b))"
  by (induction steps arbitrary: w) (auto split: option.splits simp: run_step_capacity)

lemma run_steps_accepted:
  "run_steps w a steps = Some w' \<Longrightarrow>
   \<exists>ys. accepted (instances w' b) = accepted (instances w b) @ ys"
proof (induction steps arbitrary: w)
  case Nil
  then show ?case by simp
next
  case (Cons s steps)
  then obtain v where v: "run_step a s w = Some v" and r: "run_steps v a steps = Some w'"
    by (auto split: option.splits)
  from run_step_accepted [OF v] obtain ys where
    "accepted (instances v b) = accepted (instances w b) @ ys" by blast
  moreover from Cons.IH [OF r] obtain zs where
    "accepted (instances w' b) = accepted (instances v b) @ zs" by blast
  ultimately show ?case by simp
qed

lemma run_steps_returns:
  "queue_nonrecurring (instances w this) \<Longrightarrow> list_all step_nonrecurring steps \<Longrightarrow>
   \<exists>w'. run_steps w this steps = Some w' \<and> queue_nonrecurring (instances w' this)"
proof (induction steps arbitrary: w)
  case Nil
  then show ?case by simp
next
  case (Cons s steps)
  then obtain v where v: "run_step this s w = Some v" and q: "queue_nonrecurring (instances v this)"
    using run_step_returns [of w this s] by auto
  from Cons.IH [OF q] Cons.prems(2) v show ?case by simp
qed

lemma execute_in_loop_items_extend:
  "\<exists>ys. items (deferred_functions_for_loop (instances (execute_in_loop w a f) b))
          = items (deferred_functions_for_loop (instances w b)) @ ys"
  by (simp add: execute_in_loop_def queue_push_def update_instance_def esp_log_def)

lemma fold_execute_in_loop_items_extend:
  "\<exists>ys. items (deferred_functions_for_loop
                 (instances (fold (\<lambda>f w'. execute_in_loop w' a f) fs w) b))
          = items (deferred_functions_for_loop (instances w b)) @ ys"
proof (induction fs arbitrary: w)
  case Nil
  then show ?case by simp
next
  case (Cons f fs)
  obtain ys where
    "items (deferred_functions_for_loop (instances (execute_in_loop w a f) b))
       = items (deferred_functions_for_loop (instances w b)) @ ys"
    using execute_in_loop_items_extend by blast
  moreover obtain zs where
    "items (deferred_functions_for_loop
              (instances (fold (\<lambda>f w'. execute_in_loop w' a f) fs (execute_in_loop w a f)) b))
       = items (deferred_functions_for_loop (instances (execute_in_loop w a f) b)) @ zs"
    using Cons.IH by blast
  ultimately show ?case by simp
qed

lemma run_deferred_items_extend:
  "\<exists>ys. items (deferred_functions_for_loop (instances (run_deferred w a f) b))
          = items (deferred_functions_for_loop (instances w b)) @ ys"
proof (cases f)
  case (External tag fs)
  then show ?thesis
    using fold_execute_in_loop_items_extend
      [of a fs "w\<lparr>external_runs := external_runs w @ [tag]\<rparr>" b]
    by simp
next
  case (Recurring tag)
  then show ?thesis
    using execute_in_loop_items_extend
      [of "w\<lparr>external_runs := external_runs w @ [tag]\<rparr>" a f b]
    by simp
qed (simp_all add: esp_log_def call_observers_def call_stack_def Let_def)

text \<open>A closure that recurs stays in a queue that is within its capacity: taken from the
  head, it finds room to hand itself in again.\<close>

lemma loop_iteration_recurring:
  assumes c: "within_capacity (instances w this)"
    and r: "Recurring tag \<in> set (items (deferred_functions_for_loop (instances w this)))"
  shows "Recurring tag
           \<in> set (items (deferred_functions_for_loop (instances (loop_iteration w this) this)))"
proof (cases "items (deferred_functions_for_loop (instances w this))")
  case Nil
  with r show ?thesis by simp
next
  case (Cons f fs)
  let ?w1 = "update_instance this
               (\<lambda>c. c\<lparr>deferred_functions_for_loop :=
                        (deferred_functions_for_loop (instances w this))\<lparr>items := fs\<rparr>,
                      invoked := invoked c @ [f]\<rparr>) w"
  have i1: "items (deferred_functions_for_loop (instances ?w1 this)) = fs"
    by (simp add: update_instance_def)
  show ?thesis
  proof (cases "f = Recurring tag")
    case True
    have "length fs < capacity (deferred_functions_for_loop (instances w this))"
      using c Cons by (simp add: within_capacity_def)
    then have "items (deferred_functions_for_loop
                        (instances (run_deferred ?w1 this (Recurring tag)) this))
                 = fs @ [Recurring tag]"
      by (simp add: execute_in_loop_def queue_push_def update_instance_def)
    with True show ?thesis by (simp add: loop_iteration_Cons [OF Cons])
  next
    case False
    with r Cons have "Recurring tag \<in> set fs" by simp
    moreover obtain ys where
      "items (deferred_functions_for_loop (instances (run_deferred ?w1 this f) this)) = fs @ ys"
      using run_deferred_items_extend [of ?w1 this f this] i1 by auto
    ultimately show ?thesis by (simp add: loop_iteration_Cons [OF Cons])
  qed
qed

text \<open>So the drain of a queue within its capacity that holds a recurring closure does not
  come to an end: \<^verbatim>\<open>loop()\<close> does not return.\<close>

lemma loop_never_returns:
  assumes c: "within_capacity (instances w this)"
    and r: "Recurring tag \<in> set (items (deferred_functions_for_loop (instances w this)))"
  shows "loop w this = None"
proof (rule ccontr)
  assume "loop w this \<noteq> None"
  then obtain w' where w': "loop w this = Some w'" by auto
  from loop_Some_iterations [OF w'] obtain n where
    n: "w' = ((\<lambda>v. loop_iteration v this) ^^ n) w"
    and e: "items (deferred_functions_for_loop (instances w' this)) = []"
    by blast
  have k: "within_capacity (instances (((\<lambda>v. loop_iteration v this) ^^ k) w) this)
      \<and> Recurring tag \<in> set (items (deferred_functions_for_loop
                                      (instances (((\<lambda>v. loop_iteration v this) ^^ k) w) this)))"
    for k
    using c r
    by (induction k) (simp_all add: loop_iteration_within_capacity loop_iteration_recurring)
  from k [of n] n e show False by simp
qed

lemma closure_observer_calls_cong:
  assumes "observers_of \<circ> i = observers_of \<circ> j"
  shows "closure_observer_calls i f = closure_observer_calls j f"
proof -
  have "observers_of (i a) = observers_of (j a)" for a
    using fun_cong [OF assms, of a] by simp
  then have "on_show_pass_key_callbacks (i a) = on_show_pass_key_callbacks (j a)
      \<and> on_authentication_complete_callbacks (i a) = on_authentication_complete_callbacks (j a)
      \<and> on_connected_callbacks (i a) = on_connected_callbacks (j a)
      \<and> on_disconnected_callbacks (i a) = on_disconnected_callbacks (j a)" for a
    by (simp add: observers_of_def)
  then show ?thesis by (cases f) simp_all
qed

lemma ran_between_refl: "ran_between this w w []"
  by (simp add: ran_between_def)

lemma ran_between_trans:
  assumes a: "ran_between this w w' fs" and b: "ran_between this w' w'' gs"
  shows "ran_between this w w'' (fs @ gs)"
proof -
  from a have o: "observers_of \<circ> instances w' = observers_of \<circ> instances w"
    by (simp add: ran_between_def)
  have "closure_observer_calls (instances w') g = closure_observer_calls (instances w) g" for g
    using o by (rule closure_observer_calls_cong)
  then have "closure_observer_calls (instances w') = closure_observer_calls (instances w)"
    by (rule ext)
  with a b show ?thesis
    by (simp add: ran_between_def)
qed

lemma ran_between_execute_in_loop: "ran_between this w (execute_in_loop w a f) []"
  by (auto simp: ran_between_def execute_in_loop_def queue_push_def update_instance_def
      esp_log_def closure_lines_def observers_of_def fun_eq_iff)

lemma ran_between_fold:
  "ran_between this w (fold (\<lambda>f w'. execute_in_loop w' a f) fs w) []"
proof (induction fs arbitrary: w)
  case Nil
  then show ?case by (simp add: ran_between_refl)
next
  case (Cons f fs)
  from ran_between_trans [OF ran_between_execute_in_loop Cons]
  show ?case by simp
qed

text \<open>One pass over a queue that is not empty runs the closure at its head, once.\<close>

lemma ran_between_pass:
  assumes i: "items (deferred_functions_for_loop (instances w this)) = f # fs"
  shows "ran_between this w (loop_iteration w this) [f]"
proof -
  let ?w1 = "update_instance this
               (\<lambda>c. c\<lparr>deferred_functions_for_loop :=
                        (deferred_functions_for_loop (instances w this))\<lparr>items := fs\<rparr>,
                      invoked := invoked c @ [f]\<rparr>) w"
  have plain: "ran_between this w (run_deferred ?w1 this f) [f]"
    if "\<forall>tag gs. f \<noteq> External tag gs" and "\<forall>tag. f \<noteq> Recurring tag"
    using that
    by (cases f)
      (auto simp: ran_between_def update_instance_def esp_log_def call_observers_def
        call_stack_def closure_lines_def observers_of_def fun_eq_iff Let_def)
  have ext: "ran_between this w (?w1\<lparr>external_runs := external_runs ?w1 @ [tag]\<rparr>) [f]"
    if "closure_observer_calls (instances w) f = []" and "closure_log_lines f = []"
      and "closure_stack_calls f = []" and "closure_external_runs f = [tag]" for tag
    using that
    by (auto simp: ran_between_def update_instance_def closure_lines_def observers_of_def
        fun_eq_iff)
  consider (External) tag gs where "f = External tag gs"
    | (Recurring) tag where "f = Recurring tag"
    | (own) "\<forall>tag gs. f \<noteq> External tag gs" and "\<forall>tag. f \<noteq> Recurring tag"
    by blast
  then have "ran_between this w (run_deferred ?w1 this f) [f]"
  proof cases
    case (External tag gs)
    from ran_between_trans [OF ext [of tag] ran_between_fold] External
    show ?thesis by simp
  next
    case (Recurring tag)
    from ran_between_trans [OF ext [of tag] ran_between_execute_in_loop] Recurring
    show ?thesis by simp
  next
    case own
    then show ?thesis by (rule plain)
  qed
  then show ?thesis by (simp add: loop_iteration_Cons [OF i])
qed

lemma ran_between_iteration: "\<exists>fs. ran_between this w (loop_iteration w this) fs"
proof (cases "items (deferred_functions_for_loop (instances w this))")
  case Nil
  then have "ran_between this w (loop_iteration w this) []"
    by (simp add: loop_iteration_empty ran_between_refl)
  then show ?thesis by blast
next
  case (Cons f fs)
  from ran_between_pass [OF this] show ?thesis by blast
qed

lemma ran_between_iterations:
  "\<exists>fs. ran_between this w (((\<lambda>v. loop_iteration v this) ^^ n) w) fs"
proof (induction n)
  case 0
  have "ran_between this w w []" by (rule ran_between_refl)
  then show ?case by auto
next
  case (Suc n)
  then obtain fs where "ran_between this w (((\<lambda>v. loop_iteration v this) ^^ n) w) fs"
    by blast
  moreover obtain gs where
    "ran_between this (((\<lambda>v. loop_iteration v this) ^^ n) w)
       (loop_iteration (((\<lambda>v. loop_iteration v this) ^^ n) w) this) gs"
    using ran_between_iteration by blast
  ultimately have "ran_between this w (((\<lambda>v. loop_iteration v this) ^^ Suc n) w) (fs @ gs)"
    using ran_between_trans by simp
  then show ?case by blast
qed

lemma ran_between_loop:
  assumes "loop w this = Some w'"
  shows "\<exists>fs. ran_between this w w' fs"
proof -
  from loop_Some_iterations [OF assms]
  obtain n where "w' = ((\<lambda>v. loop_iteration v this) ^^ n) w" by blast
  then show ?thesis using ran_between_iterations [of this w n] by simp
qed

lemma ran_between_step:
  assumes "run_step this s w = Some w'"
  shows "\<exists>fs. ran_between this w w' fs"
proof (cases s)
  case (Enqueue f)
  with assms ran_between_execute_in_loop [of this w this f] show ?thesis by auto
next
  case Iteration
  with assms ran_between_iteration [of this w] show ?thesis by auto
next
  case Drain
  with assms ran_between_loop [of w this w'] show ?thesis by simp
qed

lemma ran_between_steps:
  "run_steps w this steps = Some w' \<Longrightarrow> \<exists>fs. ran_between this w w' fs"
proof (induction steps arbitrary: w)
  case Nil
  then have "ran_between this w w' []" by (simp add: ran_between_refl)
  then show ?case by blast
next
  case (Cons s steps)
  then obtain v where v: "run_step this s w = Some v" and r: "run_steps v this steps = Some w'"
    by (auto split: option.splits)
  from ran_between_step [OF v] obtain fs where "ran_between this w v fs" by blast
  moreover from Cons.IH [OF r] obtain gs where "ran_between this v w' gs" by blast
  ultimately have "ran_between this w w' (fs @ gs)" by (rule ran_between_trans)
  then show ?case by blast
qed

text \<open>
  C1. Start from a controller whose history agrees with its queue (a new controller does)
  and run any sequence of steps on it: calls of \<^verbatim>\<open>execute_in_loop\<close>, single passes
  of the \<^verbatim>\<open>while\<close> of \<^verbatim>\<open>loop()\<close> and whole calls of \<^verbatim>\<open>loop()\<close>. Whenever the
  steps come to an end, the closures invoked so far followed by the closures still queued
  are exactly the closures the queue accepted, in the order of acceptance; a closure is
  accepted exactly when the queue has room for it, and accepted closures are never taken
  back. What the loop has invoked since the start is what has run: the observer calls, the
  log lines of closures, the scheduler calls and the runs of closures built elsewhere have
  each grown by what those closures add, closure after closure in that order, each once,
  and by nothing else. Whenever one further \<^verbatim>\<open>loop()\<close> returns, the queue is empty,
  closures handed in during the drain included, and the closures that have run since the
  start are exactly the accepted closures that had not run at the start, first in, first
  out; the same holds of the closures of any one producer, whatever predicate \<open>P\<close> picks
  them out. The steps and the further \<^verbatim>\<open>loop()\<close> do return when no closure in the queue
  or in the steps recurs; with a recurring closure in the queue \<^verbatim>\<open>loop()\<close> does not
  return at all, as \<open>loop_never_returns\<close> shows.
\<close>

theorem deferred_functions_invoked_once_in_order:
  assumes "history_ok (instances w this)"
  shows "(\<forall>w1. run_steps w this steps = Some w1 \<longrightarrow>
            history_ok (instances w1 this)
          \<and> (\<exists>ys. accepted (instances w1 this) = accepted (instances w this) @ ys)
          \<and> (\<exists>ran. ran_between this w w1 ran)
          \<and> accepted (instances (execute_in_loop w1 this f) this)
              = (if length (items (deferred_functions_for_loop (instances w1 this)))
                     < capacity (deferred_functions_for_loop (instances w1 this))
                 then accepted (instances w1 this) @ [f] else accepted (instances w1 this))
          \<and> (\<forall>w2. loop w1 this = Some w2 \<longrightarrow>
                items (deferred_functions_for_loop (instances w2 this)) = []
              \<and> invoked (instances w2 this) = accepted (instances w2 this)
              \<and> (\<exists>zs. accepted (instances w2 this) = accepted (instances w1 this) @ zs)
              \<and> (\<exists>ran. accepted (instances w2 this) = invoked (instances w this) @ ran
                     \<and> ran_between this w w2 ran)
              \<and> (\<forall>P. filter P (invoked (instances w2 this))
                       = filter P (accepted (instances w2 this)))))
       \<and> (queue_nonrecurring (instances w this) \<and> list_all step_nonrecurring steps \<longrightarrow>
            (\<exists>w1 w2. run_steps w this steps = Some w1 \<and> loop w1 this = Some w2))"
proof -
  have a: "history_ok (instances w1 this)
          \<and> (\<exists>ys. accepted (instances w1 this) = accepted (instances w this) @ ys)
          \<and> (\<exists>ran. ran_between this w w1 ran)
          \<and> accepted (instances (execute_in_loop w1 this f) this)
              = (if length (items (deferred_functions_for_loop (instances w1 this)))
                     < capacity (deferred_functions_for_loop (instances w1 this))
                 then accepted (instances w1 this) @ [f] else accepted (instances w1 this))
          \<and> (\<forall>w2. loop w1 this = Some w2 \<longrightarrow>
                items (deferred_functions_for_loop (instances w2 this)) = []
              \<and> invoked (instances w2 this) = accepted (instances w2 this)
              \<and> (\<exists>zs. accepted (instances w2 this) = accepted (instances w1 this) @ zs)
              \<and> (\<exists>ran. accepted (instances w2 this) = invoked (instances w this) @ ran
                     \<and> ran_between this w w2 ran)
              \<and> (\<forall>P. filter P (invoked (instances w2 this))
                       = filter P (accepted (instances w2 this))))"
    if s: "run_steps w this steps = Some w1" for w1
  proof -
    have h1: "history_ok (instances w1 this)"
      using s assms by (rule run_steps_history_ok)
    have a1: "\<exists>ys. accepted (instances w1 this) = accepted (instances w this) @ ys"
      using s by (rule run_steps_accepted)
    obtain ran1 where r1: "ran_between this w w1 ran1"
      using ran_between_steps [OF s] by blast
    have e: "accepted (instances (execute_in_loop w1 this f) this)
               = (if length (items (deferred_functions_for_loop (instances w1 this)))
                      < capacity (deferred_functions_for_loop (instances w1 this))
                  then accepted (instances w1 this) @ [f] else accepted (instances w1 this))"
      by (simp add: execute_in_loop_def queue_push_def update_instance_def esp_log_def)
    have l: "items (deferred_functions_for_loop (instances w2 this)) = []
           \<and> invoked (instances w2 this) = accepted (instances w2 this)
           \<and> (\<exists>zs. accepted (instances w2 this) = accepted (instances w1 this) @ zs)
           \<and> (\<exists>ran. accepted (instances w2 this) = invoked (instances w this) @ ran
                  \<and> ran_between this w w2 ran)
           \<and> (\<forall>P. filter P (invoked (instances w2 this))
                    = filter P (accepted (instances w2 this)))"
      if d: "loop w1 this = Some w2" for w2
    proof -
      have e2: "items (deferred_functions_for_loop (instances w2 this)) = []"
        using d by (rule loop_drains)
      have "history_ok (instances w2 this)"
        using d h1 by (rule loop_history_ok)
      with e2 have i: "invoked (instances w2 this) = accepted (instances w2 this)"
        by (simp add: history_ok_def)
      have a2: "\<exists>zs. accepted (instances w2 this) = accepted (instances w1 this) @ zs"
        using d by (rule loop_accepted)
      obtain ran2 where "ran_between this w1 w2 ran2"
        using ran_between_loop [OF d] by blast
      with r1 have r: "ran_between this w w2 (ran1 @ ran2)"
        by (rule ran_between_trans)
      then have "invoked (instances w2 this) = invoked (instances w this) @ ran1 @ ran2"
        by (simp add: ran_between_def)
      with i r have "accepted (instances w2 this) = invoked (instances w this) @ (ran1 @ ran2)
                  \<and> ran_between this w w2 (ran1 @ ran2)"
        by simp
      then have "\<exists>ran. accepted (instances w2 this) = invoked (instances w this) @ ran
                  \<and> ran_between this w w2 ran"
        by (rule exI)
      with e2 i a2 show ?thesis by simp
    qed
    from h1 a1 r1 e l show ?thesis by blast
  qed
  have b: "\<exists>w1 w2. run_steps w this steps = Some w1 \<and> loop w1 this = Some w2"
    if "queue_nonrecurring (instances w this)" and "list_all step_nonrecurring steps"
  proof -
    from run_steps_returns [OF that] obtain w1 where
      "run_steps w this steps = Some w1" and "queue_nonrecurring (instances w1 this)"
      by blast
    with loop_returns [of w1 this] show ?thesis by blast
  qed
  from a b show ?thesis by blast
qed

theorem deferred_functions_invoked_once_in_order_witness:
  "(let w = add_on_disconnected_callback
              (add_on_connected_callback (add_on_connected_callback (initial_world 2) 0 7) 0 8)
              0 9;
        steps = [Enqueue (ServerConnected 0),
                 Enqueue (External 3 [ServerDisconnected 0, LogDebug ''a'', LogDebug ''b'']),
                 Enqueue (LogDebug ''c''), Iteration, Enqueue (LogDebug ''d''), Drain,
                 Enqueue (ServerConnected 0)]
    in history_ok (instances w 0)
     \<and> queue_nonrecurring (instances w 0)
     \<and> list_all step_nonrecurring steps
     \<and> (\<exists>w1 w2. run_steps w 0 steps = Some w1 \<and> loop w1 0 = Some w2
            \<and> invoked (instances w2 0) = accepted (instances w2 0))
     \<and> map_option
           (\<lambda>w2. (accepted (instances w2 0), observer_calls w2, closure_lines w2,
                   stack_calls w2, external_runs w2))
           (Option.bind (run_steps w 0 steps) (\<lambda>w1. loop w1 0))
         = Some ([ServerConnected 0,
                  External 3 [ServerDisconnected 0, LogDebug ''a'', LogDebug ''b''],
                  LogDebug ''d'', ServerDisconnected 0, ServerConnected 0],
                 [ConnectedCall 7, ConnectedCall 8, DisconnectedCall 9,
                  ConnectedCall 7, ConnectedCall 8],
                 [(LOGD, ''BLE server - connected'', []), (LOGD, ''d'', []),
                  (LOGD, ''BLE server - disconnected'', []),
                  (LOGD, ''BLE server - connected'', [])],
                 [SetTimeout 0 500],
                 [3]))"
proof -
  let ?w = "add_on_disconnected_callback
              (add_on_connected_callback (add_on_connected_callback (initial_world 2) 0 7) 0 8)
              0 9"
  let ?steps = "[Enqueue (ServerConnected 0),
                 Enqueue (External 3 [ServerDisconnected 0, LogDebug ''a'', LogDebug ''b'']),
                 Enqueue (LogDebug ''c''), Iteration, Enqueue (LogDebug ''d''), Drain,
                 Enqueue (ServerConnected 0)]"
  have i: "instances ?w 0
             = (new_controller 2)\<lparr>on_connected_callbacks := [7, 8],
                                   on_disconnected_callbacks := [9]\<rparr>"
    by (simp add: add_on_connected_callback_def add_on_disconnected_callback_def
        update_instance_def initial_world_def new_controller_def)
  have h: "history_ok (instances ?w 0)"
    by (simp add: i history_ok_def new_controller_def)
  have q: "queue_nonrecurring (instances ?w 0)"
    by (simp add: i queue_nonrecurring_def new_controller_def)
  have s: "list_all step_nonrecurring ?steps"
    by simp
  have e: "map_option
             (\<lambda>w2. (accepted (instances w2 0), observer_calls w2, closure_lines w2,
                     stack_calls w2, external_runs w2))
             (Option.bind (run_steps ?w 0 ?steps) (\<lambda>w1. loop w1 0))
           = Some ([ServerConnected 0,
                    External 3 [ServerDisconnected 0, LogDebug ''a'', LogDebug ''b''],
                    LogDebug ''d'', ServerDisconnected 0, ServerConnected 0],
                   [ConnectedCall 7, ConnectedCall 8, DisconnectedCall 9,
                    ConnectedCall 7, ConnectedCall 8],
                   [(LOGD, ''BLE server - connected'', []), (LOGD, ''d'', []),
                    (LOGD, ''BLE server - disconnected'', []),
                    (LOGD, ''BLE server - connected'', [])],
                   [SetTimeout 0 500],
                   [3])"
    by (simp add: loop_by_iterations loop_iteration_def queue_take_def execute_in_loop_def
        queue_push_def update_instance_def esp_log_def call_observers_def call_stack_def
        closure_lines_def add_on_connected_callback_def add_on_disconnected_callback_def
        initial_world_def new_controller_def Let_def)
  from deferred_functions_invoked_once_in_order [OF h, of ?steps "LogDebug ''e''"] q s
  have "\<exists>w1 w2. run_steps ?w 0 ?steps = Some w1 \<and> loop w1 0 = Some w2
          \<and> invoked (instances w2 0) = accepted (instances w2 0)"
    by blast
  with h q s e show ?thesis
    unfolding Let_def by blast
qed

text \<open>
  C2. The queue is bounded. Start from a controller whose queue holds no more closures
  than its capacity and run any sequence of \<^verbatim>\<open>execute_in_loop\<close> calls, passes of
  the \<^verbatim>\<open>while\<close> of \<^verbatim>\<open>loop()\<close> and whole \<^verbatim>\<open>loop()\<close> calls: whenever the steps
  come to an end, as they do when no closure recurs, the queue holds no more than its
  capacity, which has not changed; the passes of a \<^verbatim>\<open>loop()\<close> that does not return are
  steps of their own. On a full queue the push returns false and leaves the queue as it
  was, and \<^verbatim>\<open>execute_in_loop\<close> returns the world it was given with one warning added to
  the log: the closure is dropped.
\<close>

theorem deferred_functions_queue_bounded:
  assumes "within_capacity (instances w this)"
  shows "(let q = deferred_functions_for_loop (instances w this)
          in (\<forall>w1. run_steps w this steps = Some w1 \<longrightarrow>
                within_capacity (instances w1 this)
              \<and> capacity (deferred_functions_for_loop (instances w1 this)) = capacity q)
           \<and> (queue_nonrecurring (instances w this) \<and> list_all step_nonrecurring steps \<longrightarrow>
                (\<exists>w1. run_steps w this steps = Some w1))
           \<and> (capacity q \<le> length (items q) \<longrightarrow>
                queue_push q f = (False, q)
              \<and> execute_in_loop w this f = esp_log LOGW ''Deferred functions queue full'' [] w))"
proof -
  have a: "within_capacity (instances w1 this)
      \<and> capacity (deferred_functions_for_loop (instances w1 this))
          = capacity (deferred_functions_for_loop (instances w this))"
    if "run_steps w this steps = Some w1" for w1
    using that assms by (simp add: run_steps_within_capacity run_steps_capacity)
  have b: "\<exists>w1. run_steps w this steps = Some w1"
    if "queue_nonrecurring (instances w this)" and "list_all step_nonrecurring steps"
    using run_steps_returns [OF that] by blast
  from a b show ?thesis
    by (simp add: Let_def execute_in_loop_full queue_push_def)
qed

theorem deferred_functions_queue_bounded_witness:
  "(let w = execute_in_loop (execute_in_loop (initial_world 2) 0 (LogDebug ''a'')) 0
              (LogDebug ''b'');
        q = deferred_functions_for_loop (instances w 0);
        steps = [Enqueue (LogDebug ''c''), Iteration, Enqueue (LogDebug ''d''),
                 Enqueue (LogDebug ''e''), Drain, Enqueue (LogDebug ''f'')]
    in within_capacity (instances w 0)
     \<and> queue_nonrecurring (instances w 0)
     \<and> list_all step_nonrecurring steps
     \<and> capacity q \<le> length (items q)
     \<and> queue_push q (LogDebug ''c'') = (False, q)
     \<and> execute_in_loop w 0 (LogDebug ''c'') = esp_log LOGW ''Deferred functions queue full'' [] w
     \<and> items (deferred_functions_for_loop (instances (execute_in_loop w 0 (LogDebug ''c'')) 0))
         = [LogDebug ''a'', LogDebug ''b'']
     \<and> (\<exists>w1. run_steps w 0 steps = Some w1 \<and> within_capacity (instances w1 0))
     \<and> map_option (\<lambda>w1. items (deferred_functions_for_loop (instances w1 0)))
          (run_steps w 0 steps) = Some [LogDebug ''f''])"
proof -
  let ?w = "execute_in_loop (execute_in_loop (initial_world 2) 0 (LogDebug ''a'')) 0
              (LogDebug ''b'')"
  let ?steps = "[Enqueue (LogDebug ''c''), Iteration, Enqueue (LogDebug ''d''),
                 Enqueue (LogDebug ''e''), Drain, Enqueue (LogDebug ''f'')]"
  have q: "deferred_functions_for_loop (instances ?w 0)
             = \<lparr>capacity = 2, items = [LogDebug ''a'', LogDebug ''b'']\<rparr>"
    by (simp add: execute_in_loop_def queue_push_def update_instance_def initial_world_def
        new_controller_def)
  have h: "within_capacity (instances ?w 0)"
    by (simp add: within_capacity_def q)
  have n: "queue_nonrecurring (instances ?w 0)"
    by (simp add: queue_nonrecurring_def q)
  have f: "capacity (deferred_functions_for_loop (instances ?w 0))
             \<le> length (items (deferred_functions_for_loop (instances ?w 0)))"
    by (simp add: q)
  have e: "map_option (\<lambda>w1. items (deferred_functions_for_loop (instances w1 0)))
             (run_steps ?w 0 ?steps) = Some [LogDebug ''f'']"
    by (simp add: loop_by_iterations loop_iteration_def queue_take_def execute_in_loop_def
        queue_push_def update_instance_def esp_log_def initial_world_def new_controller_def)
  then obtain w1 where w1: "run_steps ?w 0 ?steps = Some w1"
    by blast
  from deferred_functions_queue_bounded [OF h, of ?steps "LogDebug ''c''"] w1
  have "\<exists>w1. run_steps ?w 0 ?steps = Some w1 \<and> within_capacity (instances w1 0)"
    unfolding Let_def by blast
  moreover from deferred_functions_queue_bounded [OF h, of ?steps "LogDebug ''c''"] f
  have "queue_push (deferred_functions_for_loop (instances ?w 0)) (LogDebug ''c'')
          = (False, deferred_functions_for_loop (instances ?w 0))
      \<and> execute_in_loop ?w 0 (LogDebug ''c'')
          = esp_log LOGW ''Deferred functions queue full'' [] ?w"
    unfolding Let_def by blast
  moreover have "items (deferred_functions_for_loop
                         (instances (esp_log LOGW ''Deferred functions queue full'' [] ?w) 0))
                   = [LogDebug ''a'', LogDebug ''b'']"
    by (simp add: esp_log_def q)
  moreover have "list_all step_nonrecurring ?steps"
    by simp
  ultimately show ?thesis
    using h n f e unfolding Let_def by simp
qed

section \<open>Security and connection events\<close>

lemma via_global_Some:
  "global_ble_controller w = Some g \<Longrightarrow> via_global w f = Inr (execute_in_loop w g f)"
  by (simp add: via_global_def)

lemma execute_in_loop_observer_calls:
  "observer_calls (execute_in_loop w g f) = observer_calls w"
  by (simp add: execute_in_loop_def queue_push_def update_instance_def esp_log_def)

lemma execute_in_loop_items:
  "length (items (deferred_functions_for_loop (instances w g)))
     < capacity (deferred_functions_for_loop (instances w g)) \<Longrightarrow>
   items (deferred_functions_for_loop (instances (execute_in_loop w g f) g))
     = items (deferred_functions_for_loop (instances w g)) @ [f]"
  by (simp add: execute_in_loop_room update_instance_def)

lemma loop_single:
  assumes i: "items (deferred_functions_for_loop (instances w g)) = [f]"
    and f: "\<forall>tag fs. f \<noteq> External tag fs" "\<forall>tag. f \<noteq> Recurring tag"
  shows "loop w g =
           Some (run_deferred
                   (update_instance g
                      (\<lambda>c. c\<lparr>deferred_functions_for_loop :=
                               (deferred_functions_for_loop (instances w g))\<lparr>items := []\<rparr>,
                             invoked := invoked c @ [f]\<rparr>) w) g f)"
proof -
  let ?w1 = "update_instance g
                (\<lambda>c. c\<lparr>deferred_functions_for_loop :=
                         (deferred_functions_for_loop (instances w g))\<lparr>items := []\<rparr>,
                       invoked := invoked c @ [f]\<rparr>) w"
  have "instances (run_deferred ?w1 g f) = instances ?w1"
    using f by (cases f) (simp_all add: esp_log_def call_observers_def call_stack_def Let_def)
  then have "items (deferred_functions_for_loop (instances (run_deferred ?w1 g f) g)) = []"
    by (simp add: update_instance_def)
  then have "loop (run_deferred ?w1 g f) g = Some (run_deferred ?w1 g f)"
    by (rule loop_empty)
  then show ?thesis by (simp add: loop_Cons [OF i])
qed

lemma loop_after_enqueue:
  assumes e: "items (deferred_functions_for_loop (instances w g)) = []"
    and c: "0 < capacity (deferred_functions_for_loop (instances w g))"
    and f: "\<forall>tag fs. f \<noteq> External tag fs" "\<forall>tag. f \<noteq> Recurring tag"
  shows "loop (execute_in_loop w g f) g =
           Some (run_deferred
                   (update_instance g
                      (\<lambda>c. c\<lparr>accepted := accepted c @ [f], invoked := invoked c @ [f]\<rparr>) w) g f)"
proof -
  have r: "length (items (deferred_functions_for_loop (instances w g)))
             < capacity (deferred_functions_for_loop (instances w g))"
    using e c by simp
  have i: "items (deferred_functions_for_loop (instances (execute_in_loop w g f) g)) = [f]"
    using execute_in_loop_items [OF r, of f] e by simp
  have "(deferred_functions_for_loop (instances w g))\<lparr>items := []\<rparr>
          = deferred_functions_for_loop (instances w g)"
    using e by simp
  then have "update_instance g
          (\<lambda>c. c\<lparr>deferred_functions_for_loop :=
                   (deferred_functions_for_loop (instances (execute_in_loop w g f) g))\<lparr>items := []\<rparr>,
                 invoked := invoked c @ [f]\<rparr>) (execute_in_loop w g f)
        = update_instance g
            (\<lambda>c. c\<lparr>accepted := accepted c @ [f], invoked := invoked c @ [f]\<rparr>) w"
    by (simp add: execute_in_loop_room [OF r] update_instance_def)
  with loop_single [OF i f] show ?thesis by simp
qed

lemma replicate_numeral_eq: "replicate (numeral k) x = x # replicate (pred_numeral k) x"
  by (simp add: numeral_eq_Suc)

lemma pass_key_digits_length: "length (pass_key_digits pass_key) = 6"
  by (simp add: pass_key_digits_def snprintf_def printf_0d_def PASS_KEY_LENGTH_def Let_def)

lemma pass_key_digits_42: "pass_key_digits 42 = ''000042''"
proof -
  have "decimal 42 = ''42''" by (simp add: decimal.simps digit_char_def)
  then show ?thesis
    by (simp add: pass_key_digits_def snprintf_def printf_0d_def PASS_KEY_LENGTH_def
        replicate_numeral_eq)
qed

lemma pass_key_digits_123456: "pass_key_digits 123456 = ''123456''"
proof -
  have "decimal 123456 = ''123456''" by (simp add: decimal.simps digit_char_def)
  then show ?thesis
    by (simp add: pass_key_digits_def snprintf_def printf_0d_def PASS_KEY_LENGTH_def
        replicate_numeral_eq)
qed

lemma sint_small: "unat (k :: uint32_t) < 2 ^ 31 \<Longrightarrow> sint k = int (unat k)"
proof -
  assume a: "unat k < 2 ^ 31"
  have "int (unat k) < 2 ^ 31"
    using a by (metis of_nat_less_iff of_nat_numeral of_nat_power)
  then have "uint k < 2 ^ 31" by simp
  moreover have "- (2 ^ 31) \<le> uint k"
    by (rule order_trans [of _ 0]) simp_all
  ultimately have "signed_take_bit 31 (uint k) = uint k"
    by (simp add: signed_take_bit_int_eq_self)
  then show ?thesis by (simp add: sint_uint)
qed

lemma decimal_nonempty: "0 < length (decimal n)"
  by (subst decimal.simps) simp

lemma length_decimal_le:
  "0 < d \<Longrightarrow> length (decimal n) \<le> d \<longleftrightarrow> n < 10 ^ d"
proof (induction n arbitrary: d rule: decimal.induct)
  case (1 n)
  show ?case
  proof (cases "n < 10")
    case True
    have "(10::nat) ^ 1 \<le> 10 ^ d"
      using "1.prems" by (intro power_increasing) simp_all
    with True "1.prems" show ?thesis
      by (subst decimal.simps) simp
  next
    case False
    show ?thesis
    proof (cases "d = 1")
      case True
      with False decimal_nonempty [of "n div 10"] show ?thesis
        by (subst decimal.simps) simp
    next
      case d: False
      with "1.prems" have p: "0 < d - 1" by simp
      have "length (decimal n) \<le> d \<longleftrightarrow> length (decimal (n div 10)) \<le> d - 1"
        using False p by (subst decimal.simps) auto
      also have "\<dots> \<longleftrightarrow> n div 10 < 10 ^ (d - 1)"
        using "1.IH" [OF False p] .
      also have "\<dots> \<longleftrightarrow> n < 10 ^ (d - 1) * 10"
        by (simp add: div_less_iff_less_mult)
      also have "(10::nat) ^ (d - 1) * 10 = 10 ^ d"
        using p by (cases d) simp_all
      finally show ?thesis .
    qed
  qed
qed

lemma pass_key_digits_small:
  assumes "unat pass_key < 10 ^ 6"
  shows "pass_key_digits pass_key
           = replicate (6 - length (decimal (unat pass_key))) CHR ''0'' @ decimal (unat pass_key)"
proof -
  have "unat pass_key < 2 ^ 31" using assms by simp
  then have s: "sint pass_key = int (unat pass_key)" by (rule sint_small)
  have "length (decimal (unat pass_key)) \<le> 6"
    using assms by (simp add: length_decimal_le)
  then show ?thesis
    by (simp add: pass_key_digits_def snprintf_def printf_0d_def PASS_KEY_LENGTH_def s Let_def)
qed

lemma pass_key_digits_truncated:
  assumes "10 ^ 6 \<le> unat pass_key" and "unat pass_key < 2 ^ 31"
  shows "pass_key_digits pass_key = take 6 (decimal (unat pass_key))"
proof -
  have s: "sint pass_key = int (unat pass_key)" using assms(2) by (rule sint_small)
  have "\<not> length (decimal (unat pass_key)) \<le> 6"
    using assms(1) by (simp add: length_decimal_le)
  then show ?thesis
    by (simp add: pass_key_digits_def snprintf_def printf_0d_def PASS_KEY_LENGTH_def s Let_def)
qed

lemma pass_key_digits_negative:
  assumes "2 ^ 31 \<le> unat pass_key"
  shows "hd (pass_key_digits pass_key) = CHR ''-''"
proof -
  have "2 ^ 31 \<le> uint pass_key"
    using assms by (metis of_nat_le_iff of_nat_numeral of_nat_power uint_nat)
  then have a: "signed_take_bit 31 (uint pass_key) \<le> uint pass_key - 4294967296"
    using signed_take_bit_int_less_eq [of 31 "uint pass_key"] by simp
  have b: "uint pass_key < 4294967296"
    using uint_lt2p [of pass_key] by simp
  have c: "sint pass_key = signed_take_bit 31 (uint pass_key)"
    by (simp add: sint_uint)
  have "sint pass_key < 0"
    unfolding c using a b by linarith
  then show ?thesis
    by (simp add: pass_key_digits_def snprintf_def printf_0d_def PASS_KEY_LENGTH_def Let_def)
qed

lemma digit_char_digit:
  assumes "d < 10"
  shows "digit_char d \<in> set ''0123456789''"
    and "of_char (digit_char d) - of_char CHR ''0'' = d"
proof -
  from assms have "d \<in> {0, 1, 2, 3, 4, 5, 6, 7, 8, 9}" by auto
  then show "digit_char d \<in> set ''0123456789''"
    and "of_char (digit_char d) - of_char CHR ''0'' = d"
    by (auto simp: digit_char_def)
qed

lemma digits_value_snoc:
  "digits_value (s @ [c]) = 10 * digits_value s + (of_char c - of_char CHR ''0'')"
  by (simp add: digits_value_def)

lemma digits_value_zeros: "digits_value (replicate k CHR ''0'' @ s) = digits_value s"
proof -
  have "foldl (\<lambda>v c. 10 * v + (of_char c - of_char CHR ''0'')) 0 (replicate k CHR ''0'') = (0::nat)"
    by (induction k) simp_all
  then show ?thesis by (simp add: digits_value_def)
qed

lemma decimal_digits:
  "set (decimal n) \<subseteq> set ''0123456789'' \<and> digits_value (decimal n) = n"
proof (induction n rule: decimal.induct)
  case (1 n)
  show ?case
  proof (cases "n < 10")
    case True
    with digit_char_digit [of n] show ?thesis
      by (subst (1 2) decimal.simps) (simp add: digits_value_def)
  next
    case False
    have m: "n mod 10 < 10" by simp
    from False "1.IH" digit_char_digit [OF m] show ?thesis
      by (subst (1 2) decimal.simps) (simp add: digits_value_snoc)
  qed
qed

lemma pass_key_digits_value:
  assumes "unat pass_key < 10 ^ 6"
  shows "set (pass_key_digits pass_key) \<subseteq> set ''0123456789''"
    and "digits_value (pass_key_digits pass_key) = unat pass_key"
proof -
  have z: "set (replicate k CHR ''0'') \<subseteq> set ''0123456789''" for k
    by auto
  from decimal_digits [of "unat pass_key"] z
  show "set (pass_key_digits pass_key) \<subseteq> set ''0123456789''"
    by (simp add: pass_key_digits_small [OF assms] del: set_replicate_conv_if)
  from decimal_digits [of "unat pass_key"]
  show "digits_value (pass_key_digits pass_key) = unat pass_key"
    by (simp add: pass_key_digits_small [OF assms] digits_value_zeros)
qed

text \<open>
  C6. \<^verbatim>\<open>onPassKeyNotify\<close> renders the pass key as six decimal digits padded with
  zeros before it defers the delivery: 123456 gives \<open>''123456''\<close> and 42 gives
  \<open>''000042''\<close>. For every pass key the string has six characters, and for every pass
  key below \<open>10^6\<close> they are all decimal digits and the number they stand for is the pass
  key. With a controller registered and room in its queue, the call returns after
  appending to that queue one closure that holds the rendered string; no observer has been
  called by then. When that closure is the only one waiting, the next \<^verbatim>\<open>loop()\<close>
  returns and has handed the string to the show-pass-key observers of the notified
  controller, in the order of their registration.
\<close>

theorem onPassKeyNotify_payload:
  assumes g: "global_ble_controller w = Some g"
    and r: "length (items (deferred_functions_for_loop (instances w g)))
              < capacity (deferred_functions_for_loop (instances w g))"
  shows "pass_key_digits 123456 = ''123456''
       \<and> pass_key_digits 42 = ''000042''
       \<and> length (pass_key_digits pass_key) = 6
       \<and> (unat pass_key < 10 ^ 6 \<longrightarrow>
            set (pass_key_digits pass_key) \<subseteq> set ''0123456789''
          \<and> digits_value (pass_key_digits pass_key) = unat pass_key)
       \<and> (let payload = pass_key_digits pass_key;
               w1 = execute_in_loop w g (PassKeyReceived this payload)
           in onPassKeyNotify w this pass_key = Inr w1
            \<and> items (deferred_functions_for_loop (instances w1 g))
                = items (deferred_functions_for_loop (instances w g))
                  @ [PassKeyReceived this payload]
            \<and> observer_calls w1 = observer_calls w
            \<and> (items (deferred_functions_for_loop (instances w g)) = [] \<longrightarrow>
                 (\<exists>w2. loop w1 g = Some w2
                    \<and> observer_calls w2
                        = observer_calls w
                          @ map (\<lambda>f. ShowPassKeyCall f payload)
                              (on_show_pass_key_callbacks (instances w this)))))"
proof -
  let ?f = "PassKeyReceived this (pass_key_digits pass_key)"
  have n: "onPassKeyNotify w this pass_key = Inr (execute_in_loop w g ?f)"
    by (simp add: onPassKeyNotify_def via_global_Some [OF g])
  have q: "items (deferred_functions_for_loop (instances (execute_in_loop w g ?f) g))
             = items (deferred_functions_for_loop (instances w g)) @ [?f]"
    by (rule execute_in_loop_items [OF r])
  have o: "observer_calls (execute_in_loop w g ?f) = observer_calls w"
    by (rule execute_in_loop_observer_calls)
  have l: "\<exists>w2. loop (execute_in_loop w g ?f) g = Some w2
             \<and> observer_calls w2
                 = observer_calls w
                   @ map (\<lambda>f. ShowPassKeyCall f (pass_key_digits pass_key))
                       (on_show_pass_key_callbacks (instances w this))"
    if e: "items (deferred_functions_for_loop (instances w g)) = []"
  proof -
    have c: "0 < capacity (deferred_functions_for_loop (instances w g))"
      using r by simp
    have "\<forall>tag fs. ?f \<noteq> External tag fs" and "\<forall>tag. ?f \<noteq> Recurring tag"
      by simp_all
    from loop_after_enqueue [OF e c this] show ?thesis
      by (simp add: esp_log_def call_observers_def update_instance_def Let_def)
  qed
  have v: "set (pass_key_digits pass_key) \<subseteq> set ''0123456789''
         \<and> digits_value (pass_key_digits pass_key) = unat pass_key"
    if "unat pass_key < 10 ^ 6"
    using pass_key_digits_value [OF that] by blast
  from n q o l v show ?thesis
    unfolding Let_def
    by (intro conjI impI pass_key_digits_42 pass_key_digits_123456 pass_key_digits_length)
      blast+
qed

theorem onPassKeyNotify_payload_witness:
  "(let w = (initial_world 4)\<lparr>global_ble_controller := Some 0\<rparr>;
        w0 = add_on_show_pass_key_callback (add_on_show_pass_key_callback w 0 7) 0 8
    in global_ble_controller w0 = Some 0
     \<and> length (items (deferred_functions_for_loop (instances w0 0)))
         < capacity (deferred_functions_for_loop (instances w0 0))
     \<and> items (deferred_functions_for_loop (instances w0 0)) = []
     \<and> unat (42 :: uint32_t) < 10 ^ 6
     \<and> digits_value (pass_key_digits 42) = 42
     \<and> onPassKeyNotify w0 0 42 = Inr (execute_in_loop w0 0 (PassKeyReceived 0 ''000042''))
     \<and> map_option observer_calls (loop (execute_in_loop w0 0 (PassKeyReceived 0 ''000042'')) 0)
         = Some [ShowPassKeyCall 7 ''000042'', ShowPassKeyCall 8 ''000042''])"
proof -
  let ?w = "(initial_world 4)\<lparr>global_ble_controller := Some 0\<rparr>"
  let ?w0 = "add_on_show_pass_key_callback (add_on_show_pass_key_callback ?w 0 7) 0 8"
  have g: "global_ble_controller ?w0 = Some 0"
    by (simp add: add_on_show_pass_key_callback_def update_instance_def initial_world_def)
  have i: "instances ?w0 0 = (new_controller 4)\<lparr>on_show_pass_key_callbacks := [7, 8]\<rparr>"
    by (simp add: add_on_show_pass_key_callback_def update_instance_def initial_world_def
        new_controller_def)
  have o: "observer_calls ?w0 = []"
    by (simp add: add_on_show_pass_key_callback_def update_instance_def initial_world_def)
  have r: "length (items (deferred_functions_for_loop (instances ?w0 0)))
             < capacity (deferred_functions_for_loop (instances ?w0 0))"
    by (simp add: i new_controller_def)
  have e: "items (deferred_functions_for_loop (instances ?w0 0)) = []"
    by (simp add: i new_controller_def)
  have u: "unat (42 :: uint32_t) < 10 ^ 6"
    by simp
  from onPassKeyNotify_payload [OF g r, of 42 0] g r e o u
  show ?thesis by (auto simp: Let_def i pass_key_digits_42)
qed

text \<open>
  C10. The string handed to the show-pass-key observers always has six characters, but
  they are not always the first six digits of the pass key: \<^verbatim>\<open>%d\<close> reads the
  \<^verbatim>\<open>uint32_t\<close> as a signed number, so a pass key of \<open>2^31\<close> or more is rendered
  with a minus sign. For \<open>4294967295\<close>, whose first six digits are \<open>429496\<close>, the
  deferred string is \<open>''-00001''\<close>.
\<close>

theorem onPassKeyNotify_renders_sign:
  "pass_key_digits 4294967295 = ''-00001''
   \<and> take 6 (decimal (unat (4294967295 :: uint32_t))) = ''429496''
   \<and> (let w = (initial_world 4)\<lparr>global_ble_controller := Some 0\<rparr>
      in onPassKeyNotify w 0 4294967295 = Inr (execute_in_loop w 0 (PassKeyReceived 0 ''-00001'')))"
proof -
  have "decimal 1 = ''1''" by (simp add: decimal.simps digit_char_def)
  then have a: "pass_key_digits 4294967295 = ''-00001''"
    by (simp add: pass_key_digits_def snprintf_def printf_0d_def PASS_KEY_LENGTH_def
        replicate_numeral_eq)
  have "decimal 4294967295 = ''4294967295''" by (simp add: decimal.simps digit_char_def)
  then have b: "take 6 (decimal (unat (4294967295 :: uint32_t))) = ''429496''"
    by simp
  have c: "onPassKeyNotify ((initial_world 4)\<lparr>global_ble_controller := Some 0\<rparr>) 0 4294967295
             = Inr (execute_in_loop ((initial_world 4)\<lparr>global_ble_controller := Some 0\<rparr>) 0
                      (PassKeyReceived 0 ''-00001''))"
    by (simp add: onPassKeyNotify_def via_global_def a)
  from a b c show ?thesis by (simp add: Let_def)
qed

text \<open>No operation of the controller other than \<^verbatim>\<open>loop()\<close> calls an observer.\<close>

lemma via_global_observer_calls:
  "via_global w f = Inr w' \<Longrightarrow> observer_calls w' = observer_calls w"
  by (auto simp: via_global_def execute_in_loop_observer_calls split: option.splits)

lemma stack_callbacks_observer_calls:
  "onPassKeyNotify w this pass_key = Inr w' \<Longrightarrow> observer_calls w' = observer_calls w"
  "onAuthenticationComplete w this success = Inr w' \<Longrightarrow> observer_calls w' = observer_calls w"
  "onConnect w this = Inr w' \<Longrightarrow> observer_calls w' = observer_calls w"
  "onDisconnect w this = Inr w' \<Longrightarrow> observer_calls w' = observer_calls w"
  "onPassKeyRequest w this = Inr (k, w') \<Longrightarrow> observer_calls w' = observer_calls w"
  "onSecurityRequest w this = Inr (b, w') \<Longrightarrow> observer_calls w' = observer_calls w"
  "onConfirmPIN w this pin = Inr (b, w') \<Longrightarrow> observer_calls w' = observer_calls w"
  by (auto simp: onPassKeyNotify_def onAuthenticationComplete_def onConnect_def onDisconnect_def
      onPassKeyRequest_def onSecurityRequest_def onConfirmPIN_def Let_def via_global_def
      execute_in_loop_observer_calls split: option.splits)

lemma configuration_observer_calls:
  "observer_calls (register_component w this c s u n) = observer_calls w"
  "observer_calls (add_on_show_pass_key_callback w this f) = observer_calls w"
  "observer_calls (add_on_authentication_complete_callback w this f) = observer_calls w"
  "observer_calls (add_on_connected_callback w this f) = observer_calls w"
  "observer_calls (add_on_disconnected_callback w this f) = observer_calls w"
  "observer_calls (set_security_enabled w this e) = observer_calls w"
  "observer_calls (set_ble_mode w this m) = observer_calls w"
  "observer_calls (initialize_ble_mode w this) = observer_calls w"
  "observer_calls (update_component_state w this c v) = observer_calls w"
  by (simp_all add: register_component_def add_on_show_pass_key_callback_def
      add_on_authentication_complete_callback_def add_on_connected_callback_def
      add_on_disconnected_callback_def set_security_enabled_def set_ble_mode_def
      initialize_ble_mode_def update_component_state_def registry_index_def send_value_def
      preference_save_def safe_reboot_def update_instance_def esp_log_def Let_def
      split: option.splits prod.splits)

lemma setup_ble_services_for_components_of_observer_calls:
  "observer_calls (setup_ble_services_for_components_of kind this ks w) = observer_calls w"
  unfolding setup_ble_services_for_components_of_def
  by (induction ks arbitrary: w)
    (simp_all add: setup_ble_service_for_component_def update_instance_def split: option.splits)

lemma setup_handlers_observer_calls:
  "setup_handlers entries w = Inr w' \<Longrightarrow> observer_calls w' = observer_calls w"
  by (induction entries w rule: setup_handlers.induct) (simp_all add: call_stack_def)

lemma setup_ble_server_and_services_observer_calls:
  assumes "setup_ble_server_and_services w this app = Inr w'"
  shows "observer_calls w' = observer_calls w"
proof -
  let ?w3 = "call_stack (MaintenanceHandlerSetup this)
               (call_stack (SetServerCallbacks this)
                  (call_stack CreateServer
                     (update_instance this (\<lambda>c. c\<lparr>ble_server := Some (length (stack_calls w))\<rparr>) w)))"
  have o: "observer_calls ?w3 = observer_calls w"
    by (simp add: call_stack_def update_instance_def)
  have "w' = ?w3 \<or> setup_ble_services_for_components ?w3 this app = Inr w'"
    using assms by (simp add: setup_ble_server_and_services_def Let_def split: if_splits)
  then show ?thesis
  proof
    assume "w' = ?w3"
    with o show ?thesis by simp
  next
    assume "setup_ble_services_for_components ?w3 this app = Inr w'"
    from setup_handlers_observer_calls
      [OF this [unfolded setup_ble_services_for_components_def Let_def]]
    show ?thesis
      by (simp add: setup_ble_services_for_components_of_observer_calls o)
  qed
qed

lemma setup_ble_observer_calls:
  "setup_ble w this env = (ok, w') \<Longrightarrow> observer_calls w' = observer_calls w"
  by (auto simp: setup_ble_def Let_def esp_log_def call_stack_def mark_failed_def
      update_instance_def split: if_splits)

lemma controller_setup_observer_calls:
  assumes "controller_setup w this env app = Inr w'"
  shows "observer_calls w' = observer_calls w"
proof -
  let ?w1 = "initialize_ble_mode (esp_log LOGCONFIG ''Setting up BLE controller...'' [] w) this"
  obtain ok w2 where s: "setup_ble ?w1 this env = (ok, w2)"
    by (cases "setup_ble ?w1 this env")
  have o2: "observer_calls w2 = observer_calls w"
    using setup_ble_observer_calls [OF s]
    by (simp add: initialize_ble_mode_def esp_log_def update_instance_def Let_def)
  show ?thesis
  proof (cases ok)
    case False
    with assms s o2 show ?thesis
      by (simp add: controller_setup_def Let_def)
  next
    case True
    let ?w4 = "call_stack DeviceInit
                 (if global_ble_controller w2 = None
                  then w2\<lparr>global_ble_controller := Some this\<rparr>
                  else esp_log LOGE ''Already have an instance of the BLE controller'' [] w2)"
    have o4: "observer_calls ?w4 = observer_calls w"
      using o2 by (simp add: call_stack_def esp_log_def)
    from assms True s obtain w5 where w5: "setup_ble_server_and_services ?w4 this app = Inr w5"
      and fin: "w' = call_stack StartAdvertising
                       (enable_ble_security (call_stack (SetupController this) w5) this)"
      by (auto simp: controller_setup_def Let_def split: sum.splits)
    have "observer_calls w5 = observer_calls w"
      using setup_ble_server_and_services_observer_calls [OF w5] o4 by simp
    then show ?thesis
      by (simp add: fin call_stack_def enable_ble_security_def esp_log_def Let_def)
  qed
qed

text \<open>
  C5. With a controller registered, \<^verbatim>\<open>onAuthenticationComplete\<close>, \<^verbatim>\<open>onConnect\<close>
  and \<^verbatim>\<open>onDisconnect\<close> do nothing but hand one closure to \<^verbatim>\<open>execute_in_loop\<close> of
  the registered controller, and handing a closure in calls no observer. The observers
  are called where \<^verbatim>\<open>loop()\<close> runs the closure: the authentication-complete, connected
  or disconnected observers of the notified controller, each list from first to last; when
  the closure is the only one waiting, the next \<^verbatim>\<open>loop()\<close> returns and that is what it
  has added to the observer calls. Registering an observer appends it to its list, so
  first to last is the order of registration.
\<close>

theorem observers_called_from_loop_only:
  assumes g: "global_ble_controller w = Some g"
  shows "(let auth = AuthenticationCompleted this success;
              conn = ServerConnected this;
              disc = ServerDisconnected this;
              auth_calls = (\<lambda>w0. map (\<lambda>f. AuthenticationCompleteCall f success)
                                   (on_authentication_complete_callbacks (instances w0 this)));
              conn_calls = (\<lambda>w0. map ConnectedCall (on_connected_callbacks (instances w0 this)));
              disc_calls = (\<lambda>w0. map DisconnectedCall
                                   (on_disconnected_callbacks (instances w0 this)))
          in onAuthenticationComplete w this success = Inr (execute_in_loop w g auth)
           \<and> onConnect w this = Inr (execute_in_loop w g conn)
           \<and> onDisconnect w this = Inr (execute_in_loop w g disc)
           \<and> (\<forall>f. observer_calls (execute_in_loop w g f) = observer_calls w)
           \<and> (\<forall>w0 a. observer_calls (run_deferred w0 a auth) = observer_calls w0 @ auth_calls w0
                    \<and> observer_calls (run_deferred w0 a conn) = observer_calls w0 @ conn_calls w0
                    \<and> observer_calls (run_deferred w0 a disc) = observer_calls w0 @ disc_calls w0)
           \<and> (items (deferred_functions_for_loop (instances w g)) = []
                \<and> 0 < capacity (deferred_functions_for_loop (instances w g)) \<longrightarrow>
                map_option observer_calls (loop (execute_in_loop w g auth) g)
                  = Some (observer_calls w @ auth_calls w)
              \<and> map_option observer_calls (loop (execute_in_loop w g conn) g)
                  = Some (observer_calls w @ conn_calls w)
              \<and> map_option observer_calls (loop (execute_in_loop w g disc) g)
                  = Some (observer_calls w @ disc_calls w))
           \<and> (\<forall>n. on_authentication_complete_callbacks
                      (instances (add_on_authentication_complete_callback w this n) this)
                    = on_authentication_complete_callbacks (instances w this) @ [n]
                  \<and> on_connected_callbacks (instances (add_on_connected_callback w this n) this)
                    = on_connected_callbacks (instances w this) @ [n]
                  \<and> on_disconnected_callbacks (instances (add_on_disconnected_callback w this n) this)
                    = on_disconnected_callbacks (instances w this) @ [n]))"
proof -
  let ?auth = "AuthenticationCompleted this success"
  let ?conn = "ServerConnected this"
  let ?disc = "ServerDisconnected this"
  have entry: "onAuthenticationComplete w this success = Inr (execute_in_loop w g ?auth)"
    "onConnect w this = Inr (execute_in_loop w g ?conn)"
    "onDisconnect w this = Inr (execute_in_loop w g ?disc)"
    by (simp_all add: onAuthenticationComplete_def onConnect_def onDisconnect_def
        via_global_Some [OF g])
  have run: "observer_calls (run_deferred w0 a ?auth)
               = observer_calls w0
                 @ map (\<lambda>f. AuthenticationCompleteCall f success)
                     (on_authentication_complete_callbacks (instances w0 this))"
    "observer_calls (run_deferred w0 a ?conn)
       = observer_calls w0 @ map ConnectedCall (on_connected_callbacks (instances w0 this))"
    "observer_calls (run_deferred w0 a ?disc)
       = observer_calls w0 @ map DisconnectedCall (on_disconnected_callbacks (instances w0 this))"
    for w0 a
    by (simp_all add: esp_log_def call_observers_def call_stack_def Let_def)
  have drain: "map_option observer_calls (loop (execute_in_loop w g ?auth) g)
                 = Some (observer_calls w
                   @ map (\<lambda>f. AuthenticationCompleteCall f success)
                       (on_authentication_complete_callbacks (instances w this)))"
    "map_option observer_calls (loop (execute_in_loop w g ?conn) g)
       = Some (observer_calls w @ map ConnectedCall (on_connected_callbacks (instances w this)))"
    "map_option observer_calls (loop (execute_in_loop w g ?disc) g)
       = Some (observer_calls w
               @ map DisconnectedCall (on_disconnected_callbacks (instances w this)))"
    if e: "items (deferred_functions_for_loop (instances w g)) = []"
      and c: "0 < capacity (deferred_functions_for_loop (instances w g))"
    by (simp_all add: loop_after_enqueue [OF e c] update_instance_def
        esp_log_def call_observers_def call_stack_def Let_def)
  have reg: "on_authentication_complete_callbacks
               (instances (add_on_authentication_complete_callback w this n) this)
             = on_authentication_complete_callbacks (instances w this) @ [n]"
    "on_connected_callbacks (instances (add_on_connected_callback w this n) this)
       = on_connected_callbacks (instances w this) @ [n]"
    "on_disconnected_callbacks (instances (add_on_disconnected_callback w this n) this)
       = on_disconnected_callbacks (instances w this) @ [n]"
    for n
    by (simp_all add: add_on_authentication_complete_callback_def add_on_connected_callback_def
        add_on_disconnected_callback_def update_instance_def)
  from entry run drain reg show ?thesis
    by (simp add: Let_def execute_in_loop_observer_calls)
qed

theorem observers_called_from_loop_only_witness:
  "(let w = (initial_world 4)\<lparr>global_ble_controller := Some 0\<rparr>;
        w0 = add_on_authentication_complete_callback
               (add_on_authentication_complete_callback w 2 7) 2 8
    in global_ble_controller w0 = Some 0
     \<and> items (deferred_functions_for_loop (instances w0 0)) = []
     \<and> 0 < capacity (deferred_functions_for_loop (instances w0 0))
     \<and> onAuthenticationComplete w0 2 True
         = Inr (execute_in_loop w0 0 (AuthenticationCompleted 2 True))
     \<and> observer_calls (execute_in_loop w0 0 (AuthenticationCompleted 2 True)) = []
     \<and> map_option observer_calls
           (loop (execute_in_loop w0 0 (AuthenticationCompleted 2 True)) 0)
         = Some [AuthenticationCompleteCall 7 True, AuthenticationCompleteCall 8 True])"
proof -
  let ?w = "(initial_world 4)\<lparr>global_ble_controller := Some 0\<rparr>"
  let ?w0 = "add_on_authentication_complete_callback
               (add_on_authentication_complete_callback ?w 2 7) 2 8"
  have g: "global_ble_controller ?w0 = Some 0"
    by (simp add: add_on_authentication_complete_callback_def update_instance_def
        initial_world_def)
  have i: "instances ?w0 0 = new_controller 4"
    "instances ?w0 2 = (new_controller 4)\<lparr>on_authentication_complete_callbacks := [7, 8]\<rparr>"
    by (simp_all add: add_on_authentication_complete_callback_def update_instance_def
        initial_world_def new_controller_def)
  have o: "observer_calls ?w0 = []"
    by (simp add: add_on_authentication_complete_callback_def update_instance_def
        initial_world_def)
  have e: "items (deferred_functions_for_loop (instances ?w0 0)) = []"
    and c: "0 < capacity (deferred_functions_for_loop (instances ?w0 0))"
    by (simp_all add: i new_controller_def)
  from observers_called_from_loop_only [OF g, of 2 True] g e c o
  show ?thesis by (simp add: Let_def i)
qed

section \<open>The operating mode\<close>

text \<open>
  C3. \<^verbatim>\<open>set_ble_mode\<close>, for every current mode and every requested byte. A request for
  the current mode writes nothing to the preference, asks for no reboot and changes no
  controller. A request for another mode that is not above \<^verbatim>\<open>WIFI_ONLY\<close> sets the mode
  in memory, saves that value once and asks for one reboot. A request above
  \<^verbatim>\<open>WIFI_ONLY\<close> adds the line of the rejection to the log and changes nothing else.
  In every case either the mode in memory, the preference and the reboot count all stay as
  they were, or the mode in memory and the preference both hold the requested value.
\<close>

theorem set_ble_mode_effect:
  "(let w' = set_ble_mode w this newMode
    in (newMode = ble_mode (instances w this) \<longrightarrow>
          saves w' = saves w \<and> stored_mode w' = stored_mode w \<and> reboots w' = reboots w
          \<and> instances w' = instances w)
     \<and> (newMode \<noteq> ble_mode (instances w this) \<and> newMode \<le> WIFI_ONLY \<longrightarrow>
          ble_mode (instances w' this) = newMode \<and> stored_mode w' = Some newMode
          \<and> saves w' = saves w @ [newMode] \<and> reboots w' = Suc (reboots w))
     \<and> (WIFI_ONLY < newMode \<longrightarrow>
          w' = w\<lparr>log_lines := log_lines w
                   @ [(LOGI, ''Ignoring unsupported BLE mode %d'', [uint newMode])]\<rparr>)
     \<and> (instances w' = instances w \<and> stored_mode w' = stored_mode w \<and> saves w' = saves w
          \<and> reboots w' = reboots w
        \<or> ble_mode (instances w' this) = newMode \<and> stored_mode w' = Some newMode
          \<and> saves w' = saves w @ [newMode] \<and> reboots w' = Suc (reboots w)))"
proof -
  have same: "saves (set_ble_mode w this newMode) = saves w
      \<and> stored_mode (set_ble_mode w this newMode) = stored_mode w
      \<and> reboots (set_ble_mode w this newMode) = reboots w
      \<and> instances (set_ble_mode w this newMode) = instances w"
    if "newMode = ble_mode (instances w this) \<or> WIFI_ONLY < newMode"
    using that by (auto simp: set_ble_mode_def esp_log_def Let_def)
  have changed: "ble_mode (instances (set_ble_mode w this newMode) this) = newMode
      \<and> stored_mode (set_ble_mode w this newMode) = Some newMode
      \<and> saves (set_ble_mode w this newMode) = saves w @ [newMode]
      \<and> reboots (set_ble_mode w this newMode) = Suc (reboots w)"
    if "newMode \<noteq> ble_mode (instances w this)" and "newMode \<le> WIFI_ONLY"
    using that
    by (auto simp: set_ble_mode_def esp_log_def Let_def update_instance_def preference_save_def
        safe_reboot_def)
  have rejected: "set_ble_mode w this newMode
      = w\<lparr>log_lines := log_lines w
             @ [(LOGI, ''Ignoring unsupported BLE mode %d'', [uint newMode])]\<rparr>"
    if "WIFI_ONLY < newMode"
    using that by (simp add: set_ble_mode_def esp_log_def)
  have "newMode = ble_mode (instances w this) \<or> WIFI_ONLY < newMode
        \<or> newMode \<noteq> ble_mode (instances w this) \<and> newMode \<le> WIFI_ONLY"
    by auto
  with same changed rejected show ?thesis
    unfolding Let_def by blast
qed

theorem set_ble_mode_effect_witness:
  "(let w = initial_world 4
    in BLE_ONLY = ble_mode (instances w 0)
     \<and> reboots (set_ble_mode w 0 BLE_ONLY) = 0 \<and> saves (set_ble_mode w 0 BLE_ONLY) = []
     \<and> (1 \<noteq> ble_mode (instances w 0) \<and> 1 \<le> WIFI_ONLY)
     \<and> reboots (set_ble_mode w 0 1) = 1 \<and> saves (set_ble_mode w 0 1) = [1]
     \<and> stored_mode (set_ble_mode w 0 1) = Some 1
     \<and> ble_mode (instances (set_ble_mode w 0 1) 0) = 1
     \<and> WIFI_ONLY < 7
     \<and> set_ble_mode w 0 7
         = w\<lparr>log_lines := [(LOGI, ''Ignoring unsupported BLE mode %d'', [7])]\<rparr>)"
proof -
  let ?w = "initial_world 4"
  have a: "BLE_ONLY = ble_mode (instances ?w 0)"
    by (simp add: initial_world_def new_controller_def)
  have b: "1 \<noteq> ble_mode (instances ?w 0) \<and> 1 \<le> WIFI_ONLY"
    by (simp add: initial_world_def new_controller_def BLE_ONLY_def WIFI_ONLY_def)
  have c: "WIFI_ONLY < 7"
    by (simp add: WIFI_ONLY_def)
  have i: "reboots ?w = 0 \<and> saves ?w = [] \<and> log_lines ?w = []"
    by (simp add: initial_world_def)
  from set_ble_mode_effect [of ?w 0 BLE_ONLY] set_ble_mode_effect [of ?w 0 1]
    set_ble_mode_effect [of ?w 0 7] a b c i
  show ?thesis by (simp add: Let_def)
qed

text \<open>
  C9. When the preference holds no value, \<^verbatim>\<open>initialize_ble_mode\<close> sets the mode in
  memory to \<^verbatim>\<open>BLE_ONLY\<close> and writes nothing to the preference.
\<close>

theorem initialize_ble_mode_fallback:
  assumes "stored_mode w = None"
  shows "(let w' = initialize_ble_mode w this
          in ble_mode (instances w' this) = BLE_ONLY
           \<and> stored_mode w' = None \<and> saves w' = saves w \<and> reboots w' = reboots w)"
  using assms by (simp add: initialize_ble_mode_def esp_log_def Let_def update_instance_def)

theorem initialize_ble_mode_fallback_witness:
  "stored_mode (initial_world 4) = None
   \<and> ble_mode (instances (initialize_ble_mode (initial_world 4) 0) 0) = BLE_ONLY
   \<and> stored_mode (initialize_ble_mode (initial_world 4) 0) = None
   \<and> saves (initialize_ble_mode (initial_world 4) 0) = []"
proof -
  have h: "stored_mode (initial_world 4) = None"
    by (simp add: initial_world_def)
  have s: "saves (initial_world 4) = []"
    by (simp add: initial_world_def)
  from initialize_ble_mode_fallback [OF h, of 0] h s show ?thesis
    by (simp add: Let_def)
qed

section \<open>Publishing component state\<close>

lemma update_component_state_unregistered:
  assumes "map_of (handler_for_component (instances w this)) component = None"
  shows "update_component_state w this component state =
           update_instance this
             (\<lambda>c. c\<lparr>handler_for_component :=
                      AList.update component None (handler_for_component c)\<rparr>) w"
  using assms
  by (simp add: update_component_state_def registry_index_def update_instance_def Let_def)

text \<open>
  C4. Publishing the state of a component that has no entry in the handler registry sends
  nothing, yet it does not leave the controller as it was: \<^verbatim>\<open>operator[]\<close> enters the
  identifier into the registry with a null handler. On a new controller the registry goes
  from empty to one entry, and the loop of \<^verbatim>\<open>setup_ble_services_for_components\<close> over
  the registry would then call through that null pointer.
\<close>

theorem update_component_state_enters_null_handler:
  "(let w = initial_world 4;
        w' = update_component_state w 0 ''temperature'' (FloatState 0)
    in handler_for_component (instances w 0) = []
     \<and> handler_for_component (instances w' 0) = [(''temperature'', None)]
     \<and> w' \<noteq> w
     \<and> sent w' = sent w
     \<and> setup_handlers (handler_for_component (instances w' 0)) w' = Inl NullPointerDereference)"
proof -
  let ?w = "initial_world 4"
  let ?w' = "update_component_state ?w 0 ''temperature'' (FloatState 0)"
  have a: "handler_for_component (instances ?w 0) = []"
    by (simp add: initial_world_def new_controller_def)
  then have "map_of (handler_for_component (instances ?w 0)) ''temperature'' = None"
    by simp
  then have u: "?w' = update_instance 0
             (\<lambda>c. c\<lparr>handler_for_component :=
                      AList.update ''temperature'' None (handler_for_component c)\<rparr>) ?w"
    by (rule update_component_state_unregistered)
  have b: "handler_for_component (instances ?w' 0) = [(''temperature'', None)]"
    by (simp add: u update_instance_def a)
  have c: "?w' \<noteq> ?w"
    using a b by auto
  have d: "sent ?w' = sent ?w"
    by (simp add: u update_instance_def)
  from a b c d show ?thesis by (simp add: Let_def)
qed


section \<open>The registries\<close>

lemma setup_ble_service_for_component_info:
  "info_for_component (instances (setup_ble_service_for_component kind a k w) b)
     = info_for_component (instances w b)"
  by (simp add: setup_ble_service_for_component_def update_instance_def split: option.splits)

lemma setup_ble_service_for_component_handler:
  "map_of (handler_for_component (instances (setup_ble_service_for_component kind this k w) this)) k'
     = (case map_of (info_for_component (instances w this)) k of
          Some info \<Rightarrow>
            if k' = k
            then Some (Some \<lparr>handler_kind = kind, handler_component = k, handler_info = info\<rparr>)
            else map_of (handler_for_component (instances w this)) k'
        | None \<Rightarrow> map_of (handler_for_component (instances w this)) k')"
  by (simp add: setup_ble_service_for_component_def update_instance_def update_conv'
      split: option.splits)

lemma setup_ble_services_for_components_of_info:
  "info_for_component (instances (setup_ble_services_for_components_of kind a ks w) b)
     = info_for_component (instances w b)"
  unfolding setup_ble_services_for_components_of_def
  by (induction ks arbitrary: w) (simp_all add: setup_ble_service_for_component_info)

lemma setup_ble_services_for_components_of_handler:
  "map_of (handler_for_component
             (instances (setup_ble_services_for_components_of kind this ks w) this)) k
     = (case map_of (info_for_component (instances w this)) k of
          Some info \<Rightarrow>
            if k \<in> set ks
            then Some (Some \<lparr>handler_kind = kind, handler_component = k, handler_info = info\<rparr>)
            else map_of (handler_for_component (instances w this)) k
        | None \<Rightarrow> map_of (handler_for_component (instances w this)) k)"
  unfolding setup_ble_services_for_components_of_def
proof (induction ks arbitrary: w)
  case Nil
  then show ?case by (simp split: option.splits)
next
  case (Cons x ks)
  show ?case
    by (simp add: Cons.IH setup_ble_service_for_component_info
        setup_ble_service_for_component_handler split: option.splits)
qed

text \<open>
  C7. Registering a component twice leaves the world exactly as registering it once with
  the second descriptor: the second call overwrites the first and reports nothing. The
  handler then created for the component, by \<^verbatim>\<open>setup_ble_service_for_component\<close> or
  by the loop over a list of components that contains it, is built from the service UUID,
  the characteristic UUID and the notify flag of the second call.
\<close>

theorem register_component_last_write_wins:
  "(let w1 = register_component w this component s1 c1 n1;
        w2 = register_component w1 this component s2 c2 n2;
        info2 = \<lparr>service_UUID = s2, characteristic_UUID = c2, use_BLE2902 = n2\<rparr>;
        handler2 = \<lparr>handler_kind = kind, handler_component = component, handler_info = info2\<rparr>
    in w2 = register_component w this component s2 c2 n2
     \<and> map_of (info_for_component (instances w2 this)) component = Some info2
     \<and> map_of (handler_for_component
                 (instances (setup_ble_service_for_component kind this component w2) this))
          component = Some (Some handler2)
     \<and> (component \<in> set components \<longrightarrow>
          map_of (handler_for_component
                    (instances (setup_ble_services_for_components_of kind this components w2) this))
            component = Some (Some handler2)))"
proof -
  let ?w1 = "register_component w this component s1 c1 n1"
  let ?w2 = "register_component ?w1 this component s2 c2 n2"
  let ?info2 = "\<lparr>service_UUID = s2, characteristic_UUID = c2, use_BLE2902 = n2\<rparr>"
  have a: "?w2 = register_component w this component s2 c2 n2"
    by (simp add: register_component_def update_instance_def Let_def)
  have b: "map_of (info_for_component (instances ?w2 this)) component = Some ?info2"
    by (simp add: register_component_def update_instance_def Let_def update_conv')
  from a b show ?thesis
    by (simp add: Let_def setup_ble_service_for_component_handler
        setup_ble_services_for_components_of_handler)
qed

theorem register_component_last_write_wins_witness:
  "(let w2 = register_component
               (register_component (initial_world 4) 0 ''lamp'' ''s-old'' ''c-old'' False)
               0 ''lamp'' ''s-new'' ''c-new'' True
    in ''lamp'' \<in> set [''door'', ''lamp'']
     \<and> map_of (handler_for_component
                 (instances (setup_ble_services_for_components_of Switch 0 [''door'', ''lamp''] w2) 0))
          ''lamp''
        = Some (Some \<lparr>handler_kind = Switch, handler_component = ''lamp'',
                      handler_info = \<lparr>service_UUID = ''s-new'', characteristic_UUID = ''c-new'',
                                       use_BLE2902 = True\<rparr>\<rparr>))"
proof -
  have m: "''lamp'' \<in> set [''door'', ''lamp'']" by simp
  from register_component_last_write_wins
    [of "initial_world 4" 0 "''lamp''" "''s-old''" "''c-old''" False "''s-new''" "''c-new''" True
        Switch "[''door'', ''lamp'']"] m
  show ?thesis unfolding Let_def by blast
qed

section \<open>Setup of a second controller\<close>

lemma update_Some_present:
  "None \<notin> snd ` set al \<Longrightarrow> None \<notin> snd ` set (AList.update k (Some h) al)"
  by (induction al) auto

lemma setup_ble_service_for_component_frame:
  "global_ble_controller (setup_ble_service_for_component kind this k w) = global_ble_controller w"
  "log_lines (setup_ble_service_for_component kind this k w) = log_lines w"
  "a \<noteq> this \<Longrightarrow> instances (setup_ble_service_for_component kind this k w) a = instances w a"
  by (simp_all add: setup_ble_service_for_component_def update_instance_def split: option.splits)

lemma setup_ble_service_for_component_present:
  "handlers_present (instances w this) \<Longrightarrow>
   handlers_present (instances (setup_ble_service_for_component kind this k w) this)"
  by (simp add: setup_ble_service_for_component_def update_instance_def handlers_present_def
      update_Some_present split: option.splits)

lemma setup_ble_services_for_components_of_frame:
  "global_ble_controller (setup_ble_services_for_components_of kind this ks w)
     = global_ble_controller w"
  "log_lines (setup_ble_services_for_components_of kind this ks w) = log_lines w"
  "a \<noteq> this \<Longrightarrow> instances (setup_ble_services_for_components_of kind this ks w) a = instances w a"
  unfolding setup_ble_services_for_components_of_def
  by (induction ks arbitrary: w) (simp_all add: setup_ble_service_for_component_frame)

lemma setup_ble_services_for_components_of_present:
  "handlers_present (instances w this) \<Longrightarrow>
   handlers_present (instances (setup_ble_services_for_components_of kind this ks w) this)"
  unfolding setup_ble_services_for_components_of_def
  by (induction ks arbitrary: w) (simp_all add: setup_ble_service_for_component_present)

lemma setup_handlers_frame:
  "setup_handlers entries w = Inr w' \<Longrightarrow>
   global_ble_controller w' = global_ble_controller w \<and> log_lines w' = log_lines w
   \<and> instances w' = instances w"
  by (induction entries w rule: setup_handlers.induct) (simp_all add: call_stack_def)

lemma setup_handlers_returns:
  "None \<notin> snd ` set entries \<Longrightarrow> \<exists>w'. setup_handlers entries w = Inr w'"
  by (induction entries w rule: setup_handlers.induct) auto

lemma setup_ble_services_for_components_frame:
  assumes "setup_ble_services_for_components w this app = Inr w'"
  shows "global_ble_controller w' = global_ble_controller w"
    and "log_lines w' = log_lines w"
    and "a \<noteq> this \<Longrightarrow> instances w' a = instances w a"
  using setup_handlers_frame [OF assms [unfolded setup_ble_services_for_components_def Let_def]]
  by (simp_all add: setup_ble_services_for_components_of_frame)

lemma setup_ble_services_for_components_returns:
  assumes "handlers_present (instances w this)"
  shows "\<exists>w'. setup_ble_services_for_components w this app = Inr w'"
  unfolding setup_ble_services_for_components_def Let_def
  by (intro setup_handlers_returns handlers_present_def [THEN iffD1]
      setup_ble_services_for_components_of_present assms)

lemma setup_ble_server_and_services_frame:
  assumes "setup_ble_server_and_services w this app = Inr w'"
  shows "global_ble_controller w' = global_ble_controller w"
    and "log_lines w' = log_lines w"
    and "a \<noteq> this \<Longrightarrow> instances w' a = instances w a"
proof -
  let ?w3 = "call_stack (MaintenanceHandlerSetup this)
               (call_stack (SetServerCallbacks this)
                  (call_stack CreateServer
                     (update_instance this (\<lambda>c. c\<lparr>ble_server := Some (length (stack_calls w))\<rparr>) w)))"
  have f: "global_ble_controller ?w3 = global_ble_controller w" "log_lines ?w3 = log_lines w"
    "a \<noteq> this \<Longrightarrow> instances ?w3 a = instances w a"
    by (simp_all add: call_stack_def update_instance_def)
  have "w' = ?w3 \<or> setup_ble_services_for_components ?w3 this app = Inr w'"
    using assms by (simp add: setup_ble_server_and_services_def Let_def split: if_splits)
  then show "global_ble_controller w' = global_ble_controller w"
    and "log_lines w' = log_lines w"
    and "a \<noteq> this \<Longrightarrow> instances w' a = instances w a"
    using f setup_ble_services_for_components_frame [of ?w3 this app w']
    by auto
qed

lemma setup_ble_server_and_services_returns:
  assumes "handlers_present (instances w this)"
  shows "\<exists>w'. setup_ble_server_and_services w this app = Inr w'"
proof -
  let ?w3 = "call_stack (MaintenanceHandlerSetup this)
               (call_stack (SetServerCallbacks this)
                  (call_stack CreateServer
                     (update_instance this (\<lambda>c. c\<lparr>ble_server := Some (length (stack_calls w))\<rparr>) w)))"
  have "handlers_present (instances ?w3 this)"
    using assms by (simp add: call_stack_def update_instance_def handlers_present_def)
  then obtain w' where "setup_ble_services_for_components ?w3 this app = Inr w'"
    using setup_ble_services_for_components_returns by blast
  then show ?thesis
    by (simp add: setup_ble_server_and_services_def Let_def)
qed

lemma initialize_ble_mode_frame:
  "global_ble_controller (initialize_ble_mode w this) = global_ble_controller w"
  "bt_started (initialize_ble_mode w this) = bt_started w"
  "\<exists>new. log_lines (initialize_ble_mode w this) = log_lines w @ new"
  "a \<noteq> this \<Longrightarrow> instances (initialize_ble_mode w this) a = instances w a"
  "handlers_present (instances (initialize_ble_mode w this) this)
     = handlers_present (instances w this)"
  by (simp_all add: initialize_ble_mode_def esp_log_def update_instance_def Let_def
      handlers_present_def)

lemma setup_ble_frame:
  assumes "setup_ble w this env = (ok, w')"
  shows "global_ble_controller w' = global_ble_controller w"
    and "a \<noteq> this \<Longrightarrow> instances w' a = instances w a"
    and "\<exists>new. log_lines w' = log_lines w @ new
               \<and> (\<not> ok \<longrightarrow> (\<exists>msg args. (LOGE, msg, args) \<in> set new))"
    and "handlers_present (instances w' this) = handlers_present (instances w this)"
    and "ok = bt_comes_up w env"
  using assms
  by (auto simp: setup_ble_def Let_def esp_log_def call_stack_def mark_failed_def
      update_instance_def handlers_present_def bt_comes_up_def split: if_splits)

lemma enable_ble_security_frame:
  "global_ble_controller (enable_ble_security w this) = global_ble_controller w"
  "instances (enable_ble_security w this) = instances w"
  "\<exists>new. log_lines (enable_ble_security w this) = log_lines w @ new"
  by (simp_all add: enable_ble_security_def esp_log_def call_stack_def Let_def)

text \<open>
  C8. A controller is registered in \<^verbatim>\<open>global_ble_controller\<close> and \<^verbatim>\<open>setup()\<close>
  runs on a second controller. Whenever that call returns, the global pointer still refers
  to the first controller, the first controller is exactly as before (descriptor registry,
  handler registry, observer lists, queue and all other fields), and an error has been
  logged; when bluetooth comes up, it is the error that an instance exists already. The
  call does return when the handler registry of the second controller holds no null
  pointer.
\<close>

theorem second_controller_setup_leaves_first:
  assumes g: "global_ble_controller w = Some first"
    and d: "second \<noteq> first"
  shows "(\<forall>w'. controller_setup w second env app = Inr w' \<longrightarrow>
            global_ble_controller w' = Some first
          \<and> instances w' first = instances w first
          \<and> (\<exists>new. log_lines w' = log_lines w @ new
                \<and> (\<exists>msg args. (LOGE, msg, args) \<in> set new)
                \<and> (bt_comes_up w env \<longrightarrow>
                     (LOGE, ''Already have an instance of the BLE controller'', []) \<in> set new)))
       \<and> (handlers_present (instances w second) \<longrightarrow>
            (\<exists>w'. controller_setup w second env app = Inr w'))"
proof -
  let ?dup = "(LOGE, ''Already have an instance of the BLE controller'', [])"
  let ?w0 = "esp_log LOGCONFIG ''Setting up BLE controller...'' [] w"
  let ?w1 = "initialize_ble_mode ?w0 second"
  obtain ok w2 where s: "setup_ble ?w1 second env = (ok, w2)"
    by (cases "setup_ble ?w1 second env")
  have f: "first \<noteq> second" using d by simp
  have g1: "global_ble_controller ?w1 = Some first"
    using g by (simp add: initialize_ble_mode_frame esp_log_def)
  have i1: "instances ?w1 first = instances w first"
    using initialize_ble_mode_frame(4) [OF f, of ?w0] by (simp add: esp_log_def)
  obtain n1 where l1: "log_lines ?w1 = log_lines w @ n1"
    using initialize_ble_mode_frame(3) [of ?w0 second] by (auto simp: esp_log_def)
  have p1: "handlers_present (instances ?w1 second) = handlers_present (instances w second)"
    by (simp add: initialize_ble_mode_frame esp_log_def)
  have b1: "bt_comes_up ?w1 env = bt_comes_up w env"
    by (simp add: bt_comes_up_def initialize_ble_mode_frame esp_log_def)
  have g2: "global_ble_controller w2 = Some first"
    using setup_ble_frame(1) [OF s] g1 by simp
  have i2: "instances w2 first = instances w first"
    using setup_ble_frame(2) [OF s f] i1 by simp
  obtain n2 where l2: "log_lines w2 = log_lines w @ n1 @ n2"
    and e2: "\<not> ok \<longrightarrow> (\<exists>msg args. (LOGE, msg, args) \<in> set n2)"
    using setup_ble_frame(3) [OF s] l1 by auto
  have p2: "handlers_present (instances w2 second) = handlers_present (instances w second)"
    using setup_ble_frame(4) [OF s] p1 by simp
  have o2: "ok = bt_comes_up w env"
    using setup_ble_frame(5) [OF s] b1 by simp
  show ?thesis
  proof (cases ok)
    case False
    then have r: "controller_setup w second env app = Inr w2"
      by (simp add: controller_setup_def Let_def s)
    from False e2 obtain msg args where "(LOGE, msg, args) \<in> set (n1 @ n2)"
      by auto
    with r g2 i2 l2 False o2 show ?thesis
      by auto
  next
    case True
    let ?w4 = "call_stack DeviceInit (esp_log LOGE ''Already have an instance of the BLE controller'' [] w2)"
    let ?fin = "\<lambda>w5. call_stack StartAdvertising
                       (enable_ble_security (call_stack (SetupController second) w5) second)"
    have r: "controller_setup w second env app
               = (case setup_ble_server_and_services ?w4 second app of
                    Inl e \<Rightarrow> Inl e | Inr w5 \<Rightarrow> Inr (?fin w5))"
      using True g2 by (simp add: controller_setup_def Let_def s split: sum.splits)
    have g4: "global_ble_controller ?w4 = Some first"
      and i4: "instances ?w4 = instances w2"
      and l4: "log_lines ?w4 = log_lines w @ n1 @ n2 @ [?dup]"
      using g2 l2 by (simp_all add: call_stack_def esp_log_def)
    have a: "global_ble_controller w' = Some first \<and> instances w' first = instances w first
           \<and> (\<exists>new. log_lines w' = log_lines w @ new \<and> ?dup \<in> set new)"
      if w': "controller_setup w second env app = Inr w'" for w'
    proof -
      from w' r obtain w5 where w5: "setup_ble_server_and_services ?w4 second app = Inr w5"
        and fin: "w' = ?fin w5"
        by (auto split: sum.splits)
      have "global_ble_controller w5 = Some first"
        using setup_ble_server_and_services_frame(1) [OF w5] g4 by simp
      moreover have "instances w5 first = instances w first"
        using setup_ble_server_and_services_frame(3) [OF w5 f] i4 i2 by simp
      moreover have "log_lines w5 = log_lines w @ n1 @ n2 @ [?dup]"
        using setup_ble_server_and_services_frame(2) [OF w5] l4 by simp
      moreover obtain n6 where
        "log_lines (enable_ble_security (call_stack (SetupController second) w5) second)
           = log_lines (call_stack (SetupController second) w5) @ n6"
        using enable_ble_security_frame(3) by blast
      ultimately show ?thesis
        by (simp add: fin call_stack_def enable_ble_security_frame)
    qed
    have b: "\<exists>w'. controller_setup w second env app = Inr w'"
      if "handlers_present (instances w second)"
    proof -
      have "handlers_present (instances ?w4 second)"
        using that p2 i4 by simp
      then obtain w5 where "setup_ble_server_and_services ?w4 second app = Inr w5"
        using setup_ble_server_and_services_returns by blast
      then show ?thesis by (simp add: r)
    qed
    from a b show ?thesis by blast
  qed
qed

theorem second_controller_setup_leaves_first_witness:
  "(let w = (initial_world 4)\<lparr>global_ble_controller := Some 0, bt_started := True\<rparr>;
        env = \<lparr>btStart_ok = True, controller_status = 2, bluedroid_init_err = 0,
               bluedroid_enable_err = 0\<rparr>;
        app = \<lparr>binary_sensors = [], sensors = [''temperature''], switches = [''lamp''],
               text_sensors = []\<rparr>
    in global_ble_controller w = Some 0
     \<and> (5 :: addr) \<noteq> 0
     \<and> handlers_present (instances w 5)
     \<and> bt_comes_up w env
     \<and> (\<exists>w'. controller_setup w 5 env app = Inr w'
             \<and> global_ble_controller w' = Some 0
             \<and> instances w' 0 = instances w 0
             \<and> (\<exists>new. log_lines w' = log_lines w @ new
                   \<and> (LOGE, ''Already have an instance of the BLE controller'', []) \<in> set new)))"
proof -
  let ?w = "(initial_world 4)\<lparr>global_ble_controller := Some 0, bt_started := True\<rparr>"
  let ?env = "\<lparr>btStart_ok = True, controller_status = 2, bluedroid_init_err = 0,
               bluedroid_enable_err = 0\<rparr>"
  let ?app = "\<lparr>binary_sensors = [], sensors = [''temperature''], switches = [''lamp''],
               text_sensors = []\<rparr>"
  have g: "global_ble_controller ?w = Some 0"
    by simp
  have d: "(5 :: addr) \<noteq> 0"
    by simp
  have p: "handlers_present (instances ?w 5)"
    by (simp add: handlers_present_def initial_world_def new_controller_def)
  have b: "bt_comes_up ?w ?env"
    by (simp add: bt_comes_up_def)
  from second_controller_setup_leaves_first [OF g d, of ?env ?app] p b
  have "\<exists>w'. controller_setup ?w 5 ?env ?app = Inr w'
             \<and> global_ble_controller w' = Some 0
             \<and> instances w' 0 = instances ?w 0
             \<and> (\<exists>new. log_lines w' = log_lines ?w @ new
                   \<and> (LOGE, ''Already have an instance of the BLE controller'', []) \<in> set new)"
    by blast
  with g d p b show ?thesis
    unfolding Let_def by blast
qed

end
